theory Spec2Isabelle
  imports Main "HOL-Library.Multiset"
begin

section \<open>Text primitives of the host language\<close>

text \<open>
  Text is a list of 8-bit characters, read as the code points below 256. The predicates
  below follow the behaviour of \<^verbatim>\<open>str.isspace\<close>, \<^verbatim>\<open>str.splitlines\<close> and text-mode
  file iteration on that range.
\<close>

definition isspace :: "char \<Rightarrow> bool" where
  "isspace c = (c \<in> set [CHR 0x09, CHR 0x0A, CHR 0x0B, CHR 0x0C, CHR 0x0D,
                           CHR 0x1C, CHR 0x1D, CHR 0x1E, CHR 0x1F, CHR 0x20,
                           CHR 0x85, CHR 0xA0])"

text \<open>\<^verbatim>\<open>s.strip()\<close>: leading and trailing whitespace removed.\<close>

definition strip :: "string \<Rightarrow> string" where
  "strip s = rev (dropWhile isspace (rev (dropWhile isspace s)))"

definition linebreak :: "char \<Rightarrow> bool" where
  "linebreak c = (c \<in> set [CHR 0x0A, CHR 0x0B, CHR 0x0C, CHR 0x0D,
                             CHR 0x1C, CHR 0x1D, CHR 0x1E, CHR 0x85])"

definition newline :: "char \<Rightarrow> bool" where
  "newline c = (c = CHR 0x0A \<or> c = CHR 0x0D)"

text \<open>
  Cutting a text at line boundaries; a carriage return followed by a line feed is one
  boundary. \<open>keep\<close> is what a boundary leaves at the end of its line, \<open>cur\<close> the
  line read so far.
\<close>

fun lines_of :: "(char \<Rightarrow> bool) \<Rightarrow> string \<Rightarrow> string \<Rightarrow> string \<Rightarrow> string list" where
  "lines_of brk keep cur [] = (if cur = [] then [] else [cur])"
| "lines_of brk keep cur [c] = (if brk c then [cur @ keep] else [cur @ [c]])"
| "lines_of brk keep cur (c # d # cs) =
     (if c = CHR 0x0D \<and> d = CHR 0x0A then (cur @ keep) # lines_of brk keep [] cs
      else if brk c then (cur @ keep) # lines_of brk keep [] (d # cs)
      else lines_of brk keep (cur @ [c]) (d # cs))"

text \<open>\<^verbatim>\<open>s.splitlines()\<close>: the lines without their terminators.\<close>

definition splitlines :: "string \<Rightarrow> string list" where
  "splitlines s = lines_of linebreak [] [] s"

text \<open>
  \<^verbatim>\<open>for line in f\<close> on a file opened in text mode: universal newlines, each line
  keeping a line feed at its end.
\<close>

definition file_lines :: "string \<Rightarrow> string list" where
  "file_lines s = lines_of newline [CHR 0x0A] [] s"

text \<open>\<^verbatim>\<open>s.lower()\<close> on the code points below 256.\<close>

definition lower_char :: "char \<Rightarrow> char" where
  "lower_char c =
     (let n = (of_char c :: nat)
      in if (65 \<le> n \<and> n \<le> 90) \<or> (192 \<le> n \<and> n \<le> 214) \<or> (216 \<le> n \<and> n \<le> 222)
         then char_of (n + 32) else c)"

definition lower :: "string \<Rightarrow> string" where
  "lower s = map lower_char s"

text \<open>Truth value of an optional string: \<^verbatim>\<open>None\<close> and the empty string are false.\<close>

definition truthy :: "string option \<Rightarrow> bool" where
  "truthy s = (case s of None \<Rightarrow> False | Some t \<Rightarrow> t \<noteq> [])"


section \<open>Windows path functions\<close>

text \<open>
  The program runs on Windows (it reads the registry), so \<^verbatim>\<open>os.path\<close> is
  \<^verbatim>\<open>ntpath\<close> and \<^verbatim>\<open>os.sep\<close> is the backslash.
\<close>

definition sep :: char where
  "sep = CHR 0x5C"

definition altsep :: char where
  "altsep = CHR ''/''"

definition colon :: char where
  "colon = CHR '':''"

definition is_sep :: "char \<Rightarrow> bool" where
  "is_sep c = (c = sep \<or> c = altsep)"

text \<open>Writing Windows paths in examples: every slash stands for a backslash.\<close>

definition win :: "string \<Rightarrow> string" where
  "win s = map (\<lambda>c. if c = altsep then sep else c) s"

text \<open>
  \<^verbatim>\<open>os.path.splitdrive\<close>. A path that starts with two separators is a UNC or device
  path; how those are cut differs between versions of the library, so that branch is the
  parameter \<open>unc\<close>. A path whose second character is a colon has a drive letter.
\<close>

definition splitdrive :: "(string \<Rightarrow> string \<times> string) \<Rightarrow> string \<Rightarrow> string \<times> string" where
  "splitdrive unc p =
     (if 2 \<le> length p then
        (let normp = win p
         in if take 2 normp = [sep, sep] then unc p
            else if take 1 (drop 1 normp) = [colon] then (take 2 p, drop 2 p)
            else ([], p))
      else ([], p))"

text \<open>\<^verbatim>\<open>s.lstrip(os.sep)\<close>: leading backslashes removed.\<close>

definition lstrip_sep :: "string \<Rightarrow> string" where
  "lstrip_sep s = dropWhile (\<lambda>c. c = sep) s"

text \<open>\<^verbatim>\<open>os.path.join(path, p)\<close> with one further component.\<close>

definition path_join :: "(string \<Rightarrow> string \<times> string) \<Rightarrow> string \<Rightarrow> string \<Rightarrow> string" where
  "path_join unc path p =
     (let (result_drive, result_path) = splitdrive unc path;
          (p_drive, p_path) = splitdrive unc p;
          (result_drive, result_path) =
            (if p_path \<noteq> [] \<and> is_sep (hd p_path) then
               (if p_drive \<noteq> [] \<or> result_drive = [] then p_drive else result_drive, p_path)
             else if p_drive \<noteq> [] \<and> p_drive \<noteq> result_drive
                     \<and> lower p_drive \<noteq> lower result_drive then
               (p_drive, p_path)
             else
               (if p_drive \<noteq> [] \<and> p_drive \<noteq> result_drive then p_drive else result_drive,
                (if result_path \<noteq> [] \<and> \<not> is_sep (last result_path)
                 then result_path @ [sep] else result_path) @ p_path))
      in if result_path \<noteq> [] \<and> \<not> is_sep (hd result_path)
            \<and> result_drive \<noteq> [] \<and> last result_drive \<noteq> colon
         then result_drive @ [sep] @ result_path
         else result_drive @ result_path)"

text \<open>
  \<^verbatim>\<open>os.path.dirname(p)\<close>: everything before the last separator of the part after the
  drive, without trailing separators unless it consists of separators only.
\<close>

definition dirname :: "(string \<Rightarrow> string \<times> string) \<Rightarrow> string \<Rightarrow> string" where
  "dirname unc p =
     (let (d, q) = splitdrive unc p;
          head = rev (dropWhile (\<lambda>c. \<not> is_sep c) (rev q));
          stripped = rev (dropWhile is_sep (rev head))
      in d @ (if stripped = [] then head else stripped))"


section \<open>The collaborators of the batch searcher\<close>

text \<open>What \<^verbatim>\<open>subprocess.run\<close> gives: an exception, or a return code with the standard output.\<close>

datatype proc_result = Raised | Completed int string

text \<open>
  What \<^verbatim>\<open>re.compile\<close> does with a pattern: it returns a compiled pattern, it raises
  \<^verbatim>\<open>re.error\<close> (a malformed pattern such as \<^verbatim>\<open>[\<close>), or it raises another exception
  (\<^verbatim>\<open>OverflowError\<close> on a repeat count that is too large, \<^verbatim>\<open>RecursionError\<close> on deep
  nesting).
\<close>

datatype compile_result = Compiled | Re_error | Other_exception

text \<open>
  Everything outside the program that a run depends on:
  \<^item> \<open>es_exe\<close>: running \<^verbatim>\<open>es.exe -full-path-and-name\<close> on a search term;
  \<^item> \<open>re_compile\<close>: what \<^verbatim>\<open>re.compile\<close> does with a pattern, and \<open>re_search\<close>:
    whether the compiled pattern is found in a text (\<^verbatim>\<open>regex.search\<close>);
  \<^item> \<open>read_text\<close>: the decoded content of a file, \<open>None\<close> when opening or reading raises;
  \<^item> \<open>unc_drive\<close>: the drive of a UNC path (see \<open>splitdrive\<close>);
  \<^item> \<open>fs_raises i j\<close>: whether the \<open>j\<close>-th file operation of the \<open>i\<close>-th action
    unit of work raises. The workers run concurrently, so nothing is assumed about it;
  \<^item> \<open>search_order\<close>, \<open>action_order\<close>: the choices that fix the order in which the
    units of work of each pool complete.
\<close>

record env =
  es_exe :: "string \<Rightarrow> proc_result"
  re_compile :: "string \<Rightarrow> compile_result"
  re_search :: "string \<Rightarrow> string \<Rightarrow> bool"
  read_text :: "string \<Rightarrow> string option"
  unc_drive :: "string \<Rightarrow> string \<times> string"
  fs_raises :: "nat \<Rightarrow> nat \<Rightarrow> bool"
  search_order :: "nat list"
  action_order :: "nat list"

text \<open>The pattern compiles.\<close>

definition re_valid :: "env \<Rightarrow> string \<Rightarrow> bool" where
  "re_valid E pat = (re_compile E pat = Compiled)"

text \<open>
  \<^verbatim>\<open>as_completed(futures)\<close>: the futures in the order they complete. Each step takes
  one of the futures still pending, named by the next choice (the first one when the
  choices are used up), so every list of choices gives a rearrangement of the futures.
\<close>

definition pick :: "nat list \<Rightarrow> nat \<Rightarrow> nat" where
  "pick cs n = (case cs of [] \<Rightarrow> 0 | c # _ \<Rightarrow> c mod n)"

function as_completed :: "nat list \<Rightarrow> 'a list \<Rightarrow> 'a list" where
  "as_completed cs [] = []"
| "as_completed cs (x # xs) =
     (x # xs) ! pick cs (Suc (length xs))
       # as_completed (tl cs) (take (pick cs (Suc (length xs))) (x # xs)
                               @ drop (Suc (pick cs (Suc (length xs)))) (x # xs))"
  by pat_completeness auto
termination
  by (relation "measure (\<lambda>(cs, xs). length xs)") (auto simp: pick_def split: list.splits)


section \<open>The searcher\<close>

datatype language_manager = LanguageManagerEverything string

type_synonym found_file = "string \<times> string"

text \<open>
  The arguments of the constructor (the two callbacks apart). \<open>lang\<close> is the language
  manager; it defaults to \<^verbatim>\<open>None\<close>, and the command-line entry point constructs the
  searcher without one.
\<close>

record config =
  input_file :: "string option"
  input_text :: "string option"
  copy_path :: "string option"
  move_path :: "string option"
  log_path :: "string option"
  match_folder_structure :: bool
  delete_mode :: bool
  regex_filter :: "string option"
  lang :: "language_manager option"

record searcher = config +
  found_files :: "found_file list"
  processed_files :: "found_file list"
  failed_files :: "found_file list"

text \<open>\<^verbatim>\<open>__init__\<close>: the arguments are stored and the three result lists start empty.\<close>

definition EverythingSearcher :: "config \<Rightarrow> searcher" where
  "EverythingSearcher cfg = config.extend cfg (searcher.fields [] [] [])"

text \<open>The value of an optional string when it is true (neither \<^verbatim>\<open>None\<close> nor empty).\<close>

definition nonempty :: "string option \<Rightarrow> string option" where
  "nonempty s = (if truthy s then s else None)"

text \<open>The messages of a run, named after their localisation keys.\<close>

datatype action_note = LoggedFiles | CopiedFiles nat | MovedFiles nat | DeletedFiles nat

datatype msg =
    NoFiles
  | Processing nat
  | Searching
  | Requested string
  | InvalidRegex
  | FoundFilesHeader
  | FoundPath string
  | NoMatches
  | SummaryHeader
  | TotalProcessed nat
  | TotalFound nat
  | SuccessProcessed nat
  | FailedOperations nat
  | ActionsTaken "action_note list"
  | ErrorReadingInput
  | ErrorProcessing string

text \<open>What the orchestrating process does, in order.\<close>

datatype event =
    Log msg
  | ReCompile string
  | Submit_search string
  | Submit_process found_file
  | Progress string nat nat

datatype fs_op =
    Remove string
  | Makedirs string
  | Copy2 string string
  | Move string string

text \<open>
  The exceptions that can leave \<^verbatim>\<open>process_files\<close>; \<open>CompileException\<close> is whatever
  \<^verbatim>\<open>re.compile\<close> raises that is not \<^verbatim>\<open>re.error\<close>.
\<close>

datatype error = AttributeError | IndexError | CompileException

text \<open>
  \<^verbatim>\<open>__init__\<close> also creates the log, copy and move directories that are configured
  (\<^verbatim>\<open>os.makedirs\<close> with \<^verbatim>\<open>exist_ok\<close>), in this order.
\<close>

definition init_makedirs :: "config \<Rightarrow> fs_op list" where
  "init_makedirs cfg =
     (case nonempty (log_path cfg) of None \<Rightarrow> [] | Some path \<Rightarrow> [Makedirs path])
     @ (case nonempty (copy_path cfg) of None \<Rightarrow> [] | Some path \<Rightarrow> [Makedirs path])
     @ (case nonempty (move_path cfg) of None \<Rightarrow> [] | Some path \<Rightarrow> [Makedirs path])"

text \<open>\<^verbatim>\<open>[line.strip() for line in lines if line.strip()]\<close>\<close>

definition stripped_lines :: "string list \<Rightarrow> string list" where
  "stripped_lines ls = map strip (filter (\<lambda>line. strip line \<noteq> []) ls)"

subsection \<open>search_single_file\<close>

text \<open>
  When the pattern does not compile, the inner handler catches \<^verbatim>\<open>re.error\<close> and the
  outer one (\<^verbatim>\<open>except Exception\<close>) every other exception; both return the empty list.
\<close>

definition search_single_file :: "env \<Rightarrow> string \<Rightarrow> string option \<Rightarrow> found_file list" where
  "search_single_file E filename regex_pattern =
     (case es_exe E filename of
        Raised \<Rightarrow> []
      | Completed returncode out \<Rightarrow>
          if returncode = 0 then
            (let paths = stripped_lines (splitlines out)
             in case nonempty regex_pattern of
                  None \<Rightarrow> map (Pair filename) paths
                | Some pat \<Rightarrow>
                    if re_valid E pat
                    then map (Pair filename) (filter (re_search E pat) paths)
                    else [])
          else [])"

subsection \<open>read_input_file\<close>

definition read_input_file :: "env \<Rightarrow> searcher \<Rightarrow> string list \<times> event list" where
  "read_input_file E self =
     (case nonempty (input_text self) of
        Some text \<Rightarrow> (stripped_lines (splitlines text), [])
      | None \<Rightarrow>
          (case nonempty (input_file self) of
             None \<Rightarrow> ([], [])
           | Some path \<Rightarrow>
               (case read_text E path of
                  Some content \<Rightarrow> (stripped_lines (file_lines content), [])
                | None \<Rightarrow> ([], [Log ErrorReadingInput]))))"

subsection \<open>process_file\<close>

text \<open>
  The copy branch and the move branch of \<^verbatim>\<open>process_file\<close> are the same code up to the
  final call (\<^verbatim>\<open>shutil.copy2\<close> or \<^verbatim>\<open>shutil.move\<close>), here \<open>act\<close>.
\<close>

definition transfer_ops ::
  "env \<Rightarrow> searcher \<Rightarrow> (string \<Rightarrow> string \<Rightarrow> fs_op) \<Rightarrow> string \<Rightarrow> found_file \<Rightarrow> fs_op list" where
  "transfer_ops E self act root file_info =
     (let (filename, source_path) = file_info
      in if match_folder_structure self then
           (let rel_path = lstrip_sep (snd (splitdrive (unc_drive E) source_path));
                dest_dir = path_join (unc_drive E) root rel_path
            in [Makedirs (dirname (unc_drive E) dest_dir), act source_path dest_dir])
         else
           (let dest = path_join (unc_drive E) root filename
            in [act source_path dest]))"

text \<open>The file operations of the \<^verbatim>\<open>try\<close> block, in the order it calls them.\<close>

definition process_file_ops :: "env \<Rightarrow> searcher \<Rightarrow> found_file \<Rightarrow> fs_op list" where
  "process_file_ops E self file_info =
     (let (filename, source_path) = file_info
      in if delete_mode self then [Remove source_path]
         else
           (case nonempty (copy_path self) of
              None \<Rightarrow> []
            | Some root \<Rightarrow> transfer_ops E self Copy2 root file_info)
           @ (case nonempty (move_path self) of
                None \<Rightarrow> []
              | Some root \<Rightarrow> transfer_ops E self Move root file_info))"

text \<open>
  Running the operations: the first one that raises ends the \<^verbatim>\<open>try\<close> block. The result
  says whether all went through, and lists the operations that were attempted.
\<close>

fun run_ops :: "(nat \<Rightarrow> bool) \<Rightarrow> nat \<Rightarrow> fs_op list \<Rightarrow> bool \<times> fs_op list" where
  "run_ops raises j [] = (True, [])"
| "run_ops raises j (x # xs) =
     (if raises j then (False, [x])
      else (let (ok, attempted) = run_ops raises (Suc j) xs in (ok, x # attempted)))"

text \<open>
  \<^verbatim>\<open>process_file\<close>: \<^verbatim>\<open>True\<close> when the block went through, \<^verbatim>\<open>False\<close> with a logged
  message when an operation raised.
\<close>

definition process_file ::
  "(nat \<Rightarrow> bool) \<Rightarrow> env \<Rightarrow> searcher \<Rightarrow> found_file \<Rightarrow> bool \<times> fs_op list \<times> msg list" where
  "process_file raises E self file_info =
     (let (ok, attempted) = run_ops raises 0 (process_file_ops E self file_info)
      in (ok, attempted, if ok then [] else [ErrorProcessing (snd file_info)]))"

subsection \<open>process_files\<close>

text \<open>What a run of \<^verbatim>\<open>process_files\<close> leaves behind when it returns.\<close>

record outcome =
  final :: searcher
  trace :: "event list"
  worker_ops :: "fs_op list"
  worker_log :: "msg list"

definition returned :: "searcher \<Rightarrow> event list \<Rightarrow> outcome" where
  "returned self evs = \<lparr>final = self, trace = evs, worker_ops = [], worker_log = []\<rparr>"

text \<open>
  The loop over the completed searches. \<open>processed\<close> and \<open>found_count\<close> are the two
  local counters.
\<close>

fun search_loop ::
  "nat \<Rightarrow> found_file list list \<Rightarrow> nat \<Rightarrow> nat \<Rightarrow> searcher \<Rightarrow> event list
     \<Rightarrow> nat \<times> searcher \<times> event list" where
  "search_loop total_files [] processed found_count self evs = (found_count, self, evs)"
| "search_loop total_files (results # rest) processed found_count self evs =
     (let processed = processed + 1;
          (found_count, self) =
            (if results \<noteq> []
             then (found_count + length results,
                   self\<lparr>found_files := found_files self @ results\<rparr>)
             else (found_count, self))
      in search_loop total_files rest processed found_count self
           (evs @ [Progress ''search'' processed total_files]))"

text \<open>The search pool: one unit of work per filename, submitted before any is awaited.\<close>

definition search_stage ::
  "env \<Rightarrow> searcher \<Rightarrow> string list \<Rightarrow> nat \<Rightarrow> nat \<times> searcher \<times> event list" where
  "search_stage E self filenames total_files =
     (let search_futures =
            map (\<lambda>filename. search_single_file E filename (regex_filter self)) filenames
      in search_loop total_files (as_completed (search_order E) search_futures) 0 0 self
           (map Submit_search filenames))"

text \<open>
  The loop over the completed actions; the delete pool and the copy/move pool run the
  same loop under another progress label. The entry is read at the index
  \<^verbatim>\<open>processed_count - 1\<close>, which raises when it is out of range.
\<close>

fun action_loop ::
  "string \<Rightarrow> bool list \<Rightarrow> nat \<Rightarrow> searcher \<Rightarrow> event list \<Rightarrow> error + searcher \<times> event list" where
  "action_loop phase [] processed_count self evs = Inr (self, evs)"
| "action_loop phase (result # rest) processed_count self evs =
     (let processed_count = processed_count + 1
      in if processed_count - 1 < length (found_files self) then
           (let entry = found_files self ! (processed_count - 1);
                self = (if result
                        then self\<lparr>processed_files := processed_files self @ [entry]\<rparr>
                        else self\<lparr>failed_files := failed_files self @ [entry]\<rparr>)
            in action_loop phase rest processed_count self
                 (evs @ [Progress phase processed_count (length (found_files self))]))
         else Inl IndexError)"

text \<open>
  The futures of an action pool, one per found file in the order of \<^verbatim>\<open>found_files\<close>:
  the \<open>i\<close>-th one runs \<^verbatim>\<open>process_file\<close> in a worker that holds a copy of the searcher.
\<close>

definition process_futures :: "env \<Rightarrow> searcher \<Rightarrow> (bool \<times> fs_op list \<times> msg list) list" where
  "process_futures E self =
     map (\<lambda>(i, file_info). process_file (fs_raises E i) E self file_info)
       (enumerate 0 (found_files self))"

definition action_stage ::
  "string \<Rightarrow> env \<Rightarrow> searcher \<Rightarrow> error + searcher \<times> event list \<times> fs_op list \<times> msg list" where
  "action_stage phase E self =
     (let completed = as_completed (action_order E) (process_futures E self)
      in case action_loop phase (map fst completed) 0 self
                (map Submit_process (found_files self)) of
           Inl e \<Rightarrow> Inl e
         | Inr (self', evs) \<Rightarrow>
             Inr (self', evs, concat (map (fst \<circ> snd) completed),
                  concat (map (snd \<circ> snd) completed)))"

text \<open>The summary at the end of \<^verbatim>\<open>process_files\<close>.\<close>

definition actions_taken :: "searcher \<Rightarrow> action_note list" where
  "actions_taken self =
     (if truthy (log_path self) then [LoggedFiles] else [])
     @ (if truthy (copy_path self) then [CopiedFiles (length (processed_files self))] else [])
     @ (if truthy (move_path self) then [MovedFiles (length (processed_files self))] else [])
     @ (if delete_mode self then [DeletedFiles (length (processed_files self))] else [])"

definition summary :: "searcher \<Rightarrow> nat \<Rightarrow> nat \<Rightarrow> event list" where
  "summary self total_files found_count =
     [Log SummaryHeader, Log (TotalProcessed total_files), Log (TotalFound found_count),
      Log (SuccessProcessed (length (processed_files self)))]
     @ (if failed_files self \<noteq> []
        then [Log (FailedOperations (length (failed_files self)))] else [])
     @ (if actions_taken self \<noteq> [] then [Log (ActionsTaken (actions_taken self))] else [])"

text \<open>
  Regex validation: nothing to do without a filter; otherwise the pattern is compiled
  once, and the result says whether it compiled. The \<^verbatim>\<open>try\<close> block of the validation
  catches \<^verbatim>\<open>re.error\<close> only: \<open>compile_escapes\<close> says that the compilation raises
  something else, which then leaves \<^verbatim>\<open>process_files\<close>.
\<close>

definition validate_regex :: "env \<Rightarrow> searcher \<Rightarrow> bool \<times> event list" where
  "validate_regex E self =
     (case nonempty (regex_filter self) of
        None \<Rightarrow> (True, [])
      | Some pat \<Rightarrow> (re_compile E pat = Compiled, [ReCompile pat]))"

definition compile_escapes :: "env \<Rightarrow> searcher \<Rightarrow> bool" where
  "compile_escapes E self =
     (case nonempty (regex_filter self) of
        None \<Rightarrow> False
      | Some pat \<Rightarrow> re_compile E pat = Other_exception)"

text \<open>
  \<^verbatim>\<open>process_files\<close>. Every message goes through \<^verbatim>\<open>self.lang.get_string\<close>, which raises
  \<^verbatim>\<open>AttributeError\<close> when no language manager was given to the constructor; the first
  such call follows \<^verbatim>\<open>read_input_file\<close> on every path. Writing a log line and
  formatting a message are taken not to fail, and the progress bar is left out.
\<close>

definition process_files :: "env \<Rightarrow> searcher \<Rightarrow> error + outcome" where
  "process_files E self =
     (let (filenames, ev_read) = read_input_file E self
      in case lang self of
           None \<Rightarrow> Inl AttributeError
         | Some _ \<Rightarrow>
             if filenames = [] then Inr (returned self (ev_read @ [Log NoFiles]))
             else
               (let ev_intro = ev_read @ [Log (Processing (length filenames)), Log Searching]
                                 @ map (\<lambda>filename. Log (Requested filename)) filenames;
                    (valid, ev_valid) = validate_regex E self
                in if \<not> valid
                   then (if compile_escapes E self then Inl CompileException
                         else Inr (returned self (ev_intro @ ev_valid @ [Log InvalidRegex])))
                   else
                     (let total_files = length filenames;
                          (found_count, self, ev_search) =
                            search_stage E self filenames total_files
                      in if found_files self = []
                         then Inr (returned self
                                    (ev_intro @ ev_valid @ ev_search @ [Log NoMatches]))
                         else
                           (let ev_found = Log FoundFilesHeader
                                             # map (\<lambda>(_, full_path). Log (FoundPath full_path))
                                                 (found_files self)
                            in case (if delete_mode self then action_stage ''delete'' E self
                                     else if truthy (copy_path self) \<or> truthy (move_path self)
                                     then action_stage ''process'' E self
                                     else Inr (self, [], [], [])) of
                                 Inl e \<Rightarrow> Inl e
                               | Inr (self, ev_action, ops, wlog) \<Rightarrow>
                                   Inr \<lparr>final = self,
                                        trace = ev_intro @ ev_valid @ ev_search @ ev_found
                                                @ ev_action
                                                @ summary self total_files found_count,
                                        worker_ops = ops, worker_log = wlog\<rparr>))))"


section \<open>Observations on a run\<close>

text \<open>
  The functions of this section are not part of the program: they read off a run what the
  properties below speak about.
\<close>

text \<open>
  An action mode is configured: the condition under which \<^verbatim>\<open>process_files\<close> enters
  one of its two action pools.
\<close>

definition action_mode :: "searcher \<Rightarrow> bool" where
  "action_mode self = (delete_mode self \<or> truthy (copy_path self) \<or> truthy (move_path self))"

text \<open>
  The provider invocation failed: \<^verbatim>\<open>subprocess.run\<close> raised, or the process ended with
  a non-zero return code.
\<close>

definition provider_failed :: "proc_result \<Rightarrow> bool" where
  "provider_failed r = (case r of Raised \<Rightarrow> True | Completed returncode out \<Rightarrow> returncode \<noteq> 0)"

text \<open>
  The units of work submitted to the search pool, in the order of submission.
\<close>

fun search_units :: "event list \<Rightarrow> string list" where
  "search_units [] = []"
| "search_units (Submit_search filename # evs) = filename # search_units evs"
| "search_units (_ # evs) = search_units evs"

text \<open>
  The patterns compiled by the orchestrating process, in order.
\<close>

fun regex_compiles :: "event list \<Rightarrow> string list" where
  "regex_compiles [] = []"
| "regex_compiles (ReCompile pat # evs) = pat # regex_compiles evs"
| "regex_compiles (_ # evs) = regex_compiles evs"

text \<open>
  The lines of the input that \<^verbatim>\<open>read_input_file\<close> goes through: those of the text when
  a text is given, else those of the file, none when the file cannot be read.
\<close>

definition input_lines :: "env \<Rightarrow> searcher \<Rightarrow> string list" where
  "input_lines E self =
     (case nonempty (input_text self) of
        Some text \<Rightarrow> splitlines text
      | None \<Rightarrow>
          (case nonempty (input_file self) of
             None \<Rightarrow> []
           | Some path \<Rightarrow>
               (case read_text E path of Some content \<Rightarrow> file_lines content | None \<Rightarrow> [])))"

text \<open>
  The futures of the action pool, as indices into \<^verbatim>\<open>found_files\<close>, in the order in
  which they complete.
\<close>

definition completion_order :: "env \<Rightarrow> nat \<Rightarrow> nat list" where
  "completion_order E n = as_completed (action_order E) [0..<n]"

text \<open>
  What the \<open>i\<close>-th future of the action pool returns: the result of \<^verbatim>\<open>process_file\<close>
  on the \<open>i\<close>-th entry.
\<close>

definition action_ok :: "env \<Rightarrow> searcher \<Rightarrow> found_file list \<Rightarrow> nat \<Rightarrow> bool" where
  "action_ok E self entries i = fst (process_file (fs_raises E i) E self (entries ! i))"

text \<open>
  The destination with folder-structure preservation, in the words of the specification:
  the destination root joined with the source path without its drive and leading
  separators.
\<close>

definition structured_dest :: "env \<Rightarrow> string \<Rightarrow> string \<Rightarrow> string" where
  "structured_dest E root source_path =
     path_join (unc_drive E) root (lstrip_sep (snd (splitdrive (unc_drive E) source_path)))"

text \<open>
  The flat destination: the destination root joined with the requested filename.
\<close>

definition flat_dest :: "env \<Rightarrow> string \<Rightarrow> string \<Rightarrow> string" where
  "flat_dest E root filename = path_join (unc_drive E) root filename"

text \<open>
  A path that does not start with a separator and has no drive letter, such as
  \<^verbatim>\<open>a\b\file.txt\<close> or \<^verbatim>\<open>file.txt\<close>.
\<close>

definition plain_relative :: "string \<Rightarrow> bool" where
  "plain_relative p = ((p = [] \<or> \<not> is_sep (hd p)) \<and> take 1 (drop 1 p) \<noteq> [colon])"


section \<open>The closed form of a run\<close>

text \<open>
  The loops of \<^verbatim>\<open>process_files\<close> written without recursion, for the proofs: what the
  two loops append, the events each stage leaves in the trace, and the outcome of a run
  that has a language manager and in which no exception of the compilation gets past the
  validation. The lemma \<open>process_files_run_outcome\<close> shows that \<^verbatim>\<open>process_files\<close>
  computes it.
\<close>

text \<open>
  The entries recorded as successes and as failures when the \<open>k\<close>-th result is paired with
  the \<open>k\<close>-th entry.
\<close>

definition successes :: "'a list \<Rightarrow> bool list \<Rightarrow> 'a list" where
  "successes entries results = map fst (filter snd (zip entries results))"

definition failures :: "'a list \<Rightarrow> bool list \<Rightarrow> 'a list" where
  "failures entries results = map fst (filter (\<lambda>p. \<not> snd p) (zip entries results))"

text \<open>
  The progress updates of a loop that starts after \<open>k\<close> completions and sees \<open>m\<close> more.
\<close>

fun progress_events :: "string \<Rightarrow> nat \<Rightarrow> nat \<Rightarrow> nat \<Rightarrow> event list" where
  "progress_events phase n k 0 = []"
| "progress_events phase n k (Suc m) =
     Progress phase (Suc k) n # progress_events phase n (Suc k) m"

text \<open>
  The results of the searches in completion order, and the searcher after the search loop.
\<close>

definition search_results :: "env \<Rightarrow> searcher \<Rightarrow> found_file list list" where
  "search_results E self =
     as_completed (search_order E)
       (map (\<lambda>filename. search_single_file E filename (regex_filter self))
          (fst (read_input_file E self)))"

definition searched :: "env \<Rightarrow> searcher \<Rightarrow> searcher" where
  "searched E self = self\<lparr>found_files := found_files self @ concat (search_results E self)\<rparr>"

text \<open>
  The results of the actions in completion order, and the searcher after the action loop.
\<close>

definition action_results :: "env \<Rightarrow> searcher \<Rightarrow> bool list" where
  "action_results E self = map fst (as_completed (action_order E) (process_futures E self))"

definition acted :: "env \<Rightarrow> searcher \<Rightarrow> searcher" where
  "acted E self =
     self\<lparr>processed_files := processed_files self
                               @ successes (found_files self) (action_results E self),
          failed_files := failed_files self
                               @ failures (found_files self) (action_results E self)\<rparr>"

text \<open>
  The progress label of the action pool that runs.
\<close>

definition action_phase :: "searcher \<Rightarrow> string" where
  "action_phase self = (if delete_mode self then ''delete'' else ''process'')"

text \<open>
  The events of each stage.
\<close>

definition intro_events :: "env \<Rightarrow> searcher \<Rightarrow> event list" where
  "intro_events E self =
     snd (read_input_file E self)
     @ [Log (Processing (length (fst (read_input_file E self)))), Log Searching]
     @ map (\<lambda>filename. Log (Requested filename)) (fst (read_input_file E self))"

definition search_events :: "env \<Rightarrow> searcher \<Rightarrow> event list" where
  "search_events E self =
     map Submit_search (fst (read_input_file E self))
     @ progress_events ''search'' (length (fst (read_input_file E self))) 0
         (length (fst (read_input_file E self)))"

definition found_events :: "searcher \<Rightarrow> event list" where
  "found_events self =
     Log FoundFilesHeader # map (\<lambda>(_, full_path). Log (FoundPath full_path)) (found_files self)"

definition action_events :: "string \<Rightarrow> searcher \<Rightarrow> event list" where
  "action_events phase self =
     map Submit_process (found_files self)
     @ progress_events phase (length (found_files self)) 0 (length (found_files self))"

definition run_outcome :: "env \<Rightarrow> searcher \<Rightarrow> outcome" where
  "run_outcome E self =
     (if fst (read_input_file E self) = []
      then returned self (snd (read_input_file E self) @ [Log NoFiles])
      else if \<not> fst (validate_regex E self)
      then returned self
             (intro_events E self @ snd (validate_regex E self) @ [Log InvalidRegex])
      else if found_files (searched E self) = []
      then returned (searched E self)
             (intro_events E self @ snd (validate_regex E self) @ search_events E self
              @ [Log NoMatches])
      else if action_mode self
      then \<lparr>final = acted E (searched E self),
            trace = intro_events E self @ snd (validate_regex E self) @ search_events E self
                    @ found_events (searched E self)
                    @ action_events (action_phase self) (searched E self)
                    @ summary (acted E (searched E self))
                        (length (fst (read_input_file E self)))
                        (length (concat (search_results E self))),
            worker_ops = concat (map (fst \<circ> snd)
                           (as_completed (action_order E) (process_futures E (searched E self)))),
            worker_log = concat (map (snd \<circ> snd)
                           (as_completed (action_order E) (process_futures E (searched E self))))\<rparr>
      else \<lparr>final = searched E self,
            trace = intro_events E self @ snd (validate_regex E self) @ search_events E self
                    @ found_events (searched E self)
                    @ summary (searched E self) (length (fst (read_input_file E self)))
                        (length (concat (search_results E self))),
            worker_ops = [], worker_log = []\<rparr>)"


section \<open>Example runs\<close>

text \<open>
  Concrete collaborators and configurations, on which the properties are evaluated. The
  regex engine of the examples finds a pattern when it occurs literally in the text; as
  \<^verbatim>\<open>re.compile\<close> does, it raises \<^verbatim>\<open>re.error\<close> on the pattern \<^verbatim>\<open>[\<close> and another
  exception on \<^verbatim>\<open>a{4294967296}\<close>.
\<close>

fun contains :: "string \<Rightarrow> string \<Rightarrow> bool" where
  "contains p [] = (p = [])"
| "contains p (c # cs) = (take (length p) (c # cs) = p \<or> contains p cs)"

text \<open>
  The provider of the examples: for \<^verbatim>\<open>padded.txt\<close> two paths with blanks around
  them and blank lines between them, two paths for \<^verbatim>\<open>report.docx\<close>, none for
  \<^verbatim>\<open>missing.txt\<close>, one for \<^verbatim>\<open>notes.txt\<close>, a non-zero return code for \<^verbatim>\<open>broken\<close>,
  and an exception for everything else.
\<close>

definition padded_stdout :: string where
  "padded_stdout =
     ''  '' @ win ''C:/tmp/padded.txt'' @ ''  '' @ [CHR 0x0A, CHR 0x0A, CHR 0x09]
     @ win ''C:/x/padded.txt'' @ [CHR 0x0D, CHR 0x0A] @ ''   '' @ [CHR 0x0A]"

definition demo_es :: "string \<Rightarrow> proc_result" where
  "demo_es term =
     (if term = ''padded.txt'' then Completed 0 padded_stdout
      else if term = ''report.docx''
      then Completed 0 (win ''C:/Users/a/report.docx'' @ [CHR 0x0A]
                        @ win ''C:/tmp/report.docx'' @ [CHR 0x0A])
      else if term = ''missing.txt'' then Completed 0 []
      else if term = ''notes.txt'' then Completed 0 (win ''C:/a/b/notes.txt'')
      else if term = ''broken'' then Completed 1 (win ''C:/broken'')
      else Raised)"

text \<open>
  In the example environment the second action future (index 1) fails, the searches
  complete in the order 1, 0, 2 and the actions in the order 2, 0, 1.
\<close>

definition demo_env :: env where
  "demo_env =
     \<lparr>es_exe = demo_es,
      re_compile = (\<lambda>p. if p = ''['' then Re_error
                        else if p = ''a{4294967296}'' then Other_exception else Compiled),
      re_search = contains,
      read_text = (\<lambda>p. None), unc_drive = (\<lambda>p. ([], p)), fs_raises = (\<lambda>i j. i = 1),
      search_order = [1, 0], action_order = [2, 0]\<rparr>"

text \<open>
  The same environment with every file operation raising.
\<close>

definition failing_env :: env where
  "failing_env = demo_env\<lparr>fs_raises := (\<lambda>i j. True)\<rparr>"

text \<open>
  Three requested names, copied flat into \<^verbatim>\<open>D:\out\<close>; and variants of that
  configuration.
\<close>

definition demo_cfg :: config where
  "demo_cfg =
     \<lparr>input_file = None,
      input_text = Some (''report.docx'' @ [CHR 0x0A] @ ''broken'' @ [CHR 0x0A] @ '' notes.txt ''),
      copy_path = Some (win ''D:/out''), move_path = None, log_path = None,
      match_folder_structure = False, delete_mode = False, regex_filter = None,
      lang = Some (LanguageManagerEverything ''English'')\<rparr>"

definition demo_delete_cfg :: config where
  "demo_delete_cfg = demo_cfg\<lparr>delete_mode := True\<rparr>"

definition demo_dup_cfg :: config where
  "demo_dup_cfg = demo_cfg\<lparr>input_text := Some (''notes.txt'' @ [CHR 0x0A] @ '' notes.txt '')\<rparr>"

definition demo_nomatch_cfg :: config where
  "demo_nomatch_cfg = demo_cfg\<lparr>input_text := Some ''missing.txt''\<rparr>"

definition demo_blank_cfg :: config where
  "demo_blank_cfg = demo_cfg\<lparr>input_text := Some ''  '', regex_filter := Some ''[''\<rparr>"

definition demo_badre_cfg :: config where
  "demo_badre_cfg = demo_cfg\<lparr>regex_filter := Some ''[''\<rparr>"

definition demo_overflow_cfg :: config where
  "demo_overflow_cfg = demo_cfg\<lparr>regex_filter := Some ''a{4294967296}''\<rparr>"

definition demo_struct_cfg :: config where
  "demo_struct_cfg =
     demo_cfg\<lparr>match_folder_structure := True, move_path := Some (win ''E:/moved'')\<rparr>"

definition demo_flat_cfg :: config where
  "demo_flat_cfg = demo_cfg\<lparr>move_path := Some (win ''E:/moved'')\<rparr>"

text \<open>
  The outcomes of the example runs.
\<close>

definition demo_out :: outcome where
  "demo_out = projr (process_files demo_env (EverythingSearcher demo_cfg))"

definition demo_out_in_order :: outcome where
  "demo_out_in_order =
     projr (process_files (demo_env\<lparr>action_order := []\<rparr>) (EverythingSearcher demo_cfg))"

definition demo_delete_out :: outcome where
  "demo_delete_out = projr (process_files demo_env (EverythingSearcher demo_delete_cfg))"

definition demo_dup_out :: outcome where
  "demo_dup_out = projr (process_files demo_env (EverythingSearcher demo_dup_cfg))"

definition failing_out :: outcome where
  "failing_out = projr (process_files failing_env (EverythingSearcher demo_cfg))"


section \<open>Properties\<close>

subsection \<open>The completion order\<close>

text \<open>
  Whatever the choices, the completed futures are a rearrangement of the submitted ones.
\<close>

lemma pick_less: "0 < n \<Longrightarrow> pick cs n < n"
  by (simp add: pick_def split: list.splits)

lemma mset_as_completed: "mset (as_completed cs xs) = mset xs"
proof (induction cs xs rule: as_completed.induct)
  case (1 cs)
  show ?case by simp
next
  case (2 cs x xs)
  let ?ys = "x # xs"
  let ?i = "pick cs (Suc (length xs))"
  have i: "?i < length ?ys" using pick_less [of "Suc (length xs)" cs] by simp
  have "mset ?ys = mset (take ?i ?ys @ ?ys ! ?i # drop (Suc ?i) ?ys)"
    using i by (simp only: id_take_nth_drop [symmetric])
  then have "mset ?ys = add_mset (?ys ! ?i) (mset (take ?i ?ys @ drop (Suc ?i) ?ys))"
    by simp
  with 2 show ?case by simp
qed

lemma length_as_completed: "length (as_completed cs xs) = length xs"
  using mset_as_completed [of cs xs] by (metis size_mset)

lemma set_as_completed: "set (as_completed cs xs) = set xs"
  using mset_as_completed [of cs xs] by (metis set_mset_mset)

lemma as_completed_map: "as_completed cs (map f xs) = map f (as_completed cs xs)"
proof (induction cs xs rule: as_completed.induct)
  case (1 cs)
  show ?case by simp
next
  case (2 cs x xs)
  let ?i = "pick cs (Suc (length xs))"
  have i: "?i < length (x # xs)" using pick_less [of "Suc (length xs)" cs] by simp
  have a: "(map f (x # xs)) ! ?i = f ((x # xs) ! ?i)"
    using i by (rule nth_map)
  have b: "take ?i (map f (x # xs)) @ drop (Suc ?i) (map f (x # xs))
           = map f (take ?i (x # xs) @ drop (Suc ?i) (x # xs))"
    by (simp only: take_map drop_map map_append)
  have "as_completed cs (map f (x # xs)) = as_completed cs (f x # map f xs)" by simp
  also have "\<dots> = (f x # map f xs) ! ?i # as_completed (tl cs) (take ?i (f x # map f xs) @ drop (Suc ?i) (f x # map f xs))"
    by (simp only: as_completed.simps length_map)
  also have "\<dots> = f ((x # xs) ! ?i) # as_completed (tl cs) (map f (take ?i (x # xs) @ drop (Suc ?i) (x # xs)))"
    using a b by (simp only: list.map)
  also have "\<dots> = map f (as_completed cs (x # xs))"
    using 2 by (simp only: as_completed.simps list.map)
  finally show ?case .
qed

subsection \<open>The two loops\<close>

lemma search_loop_closed:
  "search_loop total_files rs p fc self evs =
     (fc + length (concat rs),
      self\<lparr>found_files := found_files self @ concat rs\<rparr>,
      evs @ progress_events ''search'' total_files p (length rs))"
proof (induction rs arbitrary: p fc self evs)
  case Nil
  show ?case by simp
next
  case (Cons r rs)
  show ?case
    by (cases "r = []") (simp_all add: Cons.IH)
qed

lemma action_loop_closed:
  "pc + length rs \<le> length (found_files self) \<Longrightarrow>
   action_loop phase rs pc self evs =
     Inr (self\<lparr>processed_files := processed_files self
                    @ successes (drop pc (found_files self)) rs,
               failed_files := failed_files self
                    @ failures (drop pc (found_files self)) rs\<rparr>,
          evs @ progress_events phase (length (found_files self)) pc (length rs))"
proof (induction rs arbitrary: pc self evs)
  case Nil
  show ?case by (simp add: successes_def failures_def)
next
  case (Cons r rs)
  have lt: "pc < length (found_files self)" using Cons.prems by simp
  have d: "drop pc (found_files self) = found_files self ! pc # drop (Suc pc) (found_files self)"
    using lt by (simp add: Cons_nth_drop_Suc)
  show ?case
  proof (cases r)
    case True
    have le: "Suc pc + length rs \<le> length (found_files (self\<lparr>processed_files := processed_files self @ [found_files self ! pc]\<rparr>))"
      using Cons.prems by simp
    show ?thesis
      using lt True by (simp add: Cons.IH [OF le] d successes_def failures_def)
  next
    case False
    have le: "Suc pc + length rs \<le> length (found_files (self\<lparr>failed_files := failed_files self @ [found_files self ! pc]\<rparr>))"
      using Cons.prems by simp
    show ?thesis
      using lt False by (simp add: Cons.IH [OF le] d successes_def failures_def)
  qed
qed

lemma length_successes_failures:
  "length rs = length es \<Longrightarrow> length (successes es rs) + length (failures es rs) = length es"
  unfolding successes_def failures_def
  using sum_length_filter_compl [of snd "zip es rs"] by simp

lemma mset_successes_failures:
  assumes "length rs = length es"
  shows "mset (successes es rs @ failures es rs) = mset es"
proof -
  let ?M = "mset (zip es rs)"
  have part: "filter_mset snd ?M + filter_mset (\<lambda>p. \<not> snd p) ?M = ?M"
    by (rule multiset_partition [symmetric])
  have "mset (successes es rs @ failures es rs)
        = image_mset fst (filter_mset snd ?M) + image_mset fst (filter_mset (\<lambda>p. \<not> snd p) ?M)"
    by (simp add: successes_def failures_def)
  also have "\<dots> = image_mset fst (filter_mset snd ?M + filter_mset (\<lambda>p. \<not> snd p) ?M)"
    by (simp only: image_mset_union)
  also have "\<dots> = image_mset fst ?M"
    by (simp only: part)
  also have "\<dots> = mset (map fst (zip es rs))" by simp
  also have "\<dots> = mset es" using assms by simp
  finally show ?thesis .
qed

lemma successes_nth:
  "length rs = length es \<Longrightarrow>
   successes es rs = map (\<lambda>k. es ! k) (filter (\<lambda>k. rs ! k) [0..<length es])"
proof (induction es arbitrary: rs rule: rev_induct)
  case Nil
  then show ?case by (simp add: successes_def)
next
  case (snoc e es)
  then obtain rs' r where rs: "rs = rs' @ [r]" "length rs' = length es"
    by (cases rs rule: rev_cases) auto
  have m: "map (\<lambda>k. (es @ [e]) ! k) (filter (\<lambda>k. (rs' @ [r]) ! k) [0..<length es])
           = map (\<lambda>k. es ! k) (filter (\<lambda>k. rs' ! k) [0..<length es])"
    using rs(2) by (auto simp: nth_append intro!: map_cong filter_cong)
  have "successes (es @ [e]) (rs' @ [r]) = successes es rs' @ (if r then [e] else [])"
    using rs(2) by (simp add: successes_def)
  then show ?case using snoc.IH [OF rs(2)] rs m by (simp add: nth_append)
qed

lemma failures_nth:
  "length rs = length es \<Longrightarrow>
   failures es rs = map (\<lambda>k. es ! k) (filter (\<lambda>k. \<not> rs ! k) [0..<length es])"
proof (induction es arbitrary: rs rule: rev_induct)
  case Nil
  then show ?case by (simp add: failures_def)
next
  case (snoc e es)
  then obtain rs' r where rs: "rs = rs' @ [r]" "length rs' = length es"
    by (cases rs rule: rev_cases) auto
  have m: "map (\<lambda>k. (es @ [e]) ! k) (filter (\<lambda>k. \<not> (rs' @ [r]) ! k) [0..<length es])
           = map (\<lambda>k. es ! k) (filter (\<lambda>k. \<not> rs' ! k) [0..<length es])"
    using rs(2) by (auto simp: nth_append intro!: map_cong filter_cong)
  have "failures (es @ [e]) (rs' @ [r]) = failures es rs' @ (if r then [] else [e])"
    using rs(2) by (simp add: failures_def)
  then show ?case using snoc.IH [OF rs(2)] rs m by (simp add: nth_append)
qed

subsection \<open>The two stages\<close>

lemma length_process_futures: "length (process_futures E self) = length (found_files self)"
  by (simp add: process_futures_def)

lemma length_action_results: "length (action_results E self) = length (found_files self)"
  by (simp add: action_results_def length_as_completed length_process_futures)

lemma action_stage_closed:
  "action_stage phase E self =
     Inr (acted E self,
          map Submit_process (found_files self)
            @ progress_events phase (length (found_files self)) 0 (length (found_files self)),
          concat (map (fst \<circ> snd) (as_completed (action_order E) (process_futures E self))),
          concat (map (snd \<circ> snd) (as_completed (action_order E) (process_futures E self))))"
proof -
  have le: "0 + length (action_results E self) \<le> length (found_files self)"
    by (simp add: length_action_results)
  show ?thesis
    unfolding action_stage_def Let_def
    using action_loop_closed [OF le, of phase "map Submit_process (found_files self)"]
    by (simp add: action_results_def [symmetric] acted_def length_action_results)
qed

lemma search_stage_closed:
  "search_stage E self (fst (read_input_file E self)) n =
     (length (concat (search_results E self)), searched E self,
      map Submit_search (fst (read_input_file E self))
        @ progress_events ''search'' n 0 (length (fst (read_input_file E self))))"
  by (simp add: search_stage_def search_loop_closed search_results_def [symmetric]
        searched_def length_as_completed)

subsection \<open>The branches of process_files\<close>

text \<open>
  One lemma for each way \<^verbatim>\<open>process_files\<close> can end.
\<close>

lemma process_files_no_lang:
  "lang self = None \<Longrightarrow> process_files E self = Inl AttributeError"
  by (simp add: process_files_def split: prod.splits)

lemma process_files_no_files:
  "lang self = Some l \<Longrightarrow> fst (read_input_file E self) = [] \<Longrightarrow>
   process_files E self = Inr (returned self (snd (read_input_file E self) @ [Log NoFiles]))"
proof -
  assume a: "lang self = Some l" "fst (read_input_file E self) = []"
  obtain fs ev where r: "read_input_file E self = (fs, ev)" by (cases "read_input_file E self")
  show ?thesis using a r by (simp add: process_files_def)
qed

lemma process_files_invalid_regex:
  "lang self = Some l \<Longrightarrow> fst (read_input_file E self) \<noteq> [] \<Longrightarrow>
   \<not> fst (validate_regex E self) \<Longrightarrow> \<not> compile_escapes E self \<Longrightarrow>
   process_files E self =
     Inr (returned self (intro_events E self @ snd (validate_regex E self) @ [Log InvalidRegex]))"
proof -
  assume a: "lang self = Some l" "fst (read_input_file E self) \<noteq> []"
    "\<not> fst (validate_regex E self)" "\<not> compile_escapes E self"
  obtain fs ev where r: "read_input_file E self = (fs, ev)" by (cases "read_input_file E self")
  obtain v ev2 where v: "validate_regex E self = (v, ev2)" by (cases "validate_regex E self")
  show ?thesis using a r v by (simp add: process_files_def intro_events_def)
qed

lemma compile_escapes_invalid: "compile_escapes E self \<Longrightarrow> \<not> fst (validate_regex E self)"
  by (simp add: compile_escapes_def validate_regex_def split: option.splits)

lemma process_files_compile_escapes:
  "lang self = Some l \<Longrightarrow> fst (read_input_file E self) \<noteq> [] \<Longrightarrow>
   compile_escapes E self \<Longrightarrow> process_files E self = Inl CompileException"
proof -
  assume a: "lang self = Some l" "fst (read_input_file E self) \<noteq> []"
    "compile_escapes E self"
  obtain fs ev where r: "read_input_file E self = (fs, ev)" by (cases "read_input_file E self")
  obtain v ev2 where v: "validate_regex E self = (v, ev2)" by (cases "validate_regex E self")
  have "\<not> v" using compile_escapes_invalid [OF a(3)] v by simp
  then show ?thesis using a r v by (simp add: process_files_def)
qed

lemma process_files_no_matches:
  "lang self = Some l \<Longrightarrow> fst (read_input_file E self) \<noteq> [] \<Longrightarrow>
   fst (validate_regex E self) \<Longrightarrow> found_files (searched E self) = [] \<Longrightarrow>
   process_files E self =
     Inr (returned (searched E self)
           (intro_events E self @ snd (validate_regex E self) @ search_events E self
            @ [Log NoMatches]))"
proof -
  assume a: "lang self = Some l" "fst (read_input_file E self) \<noteq> []"
    "fst (validate_regex E self)" "found_files (searched E self) = []"
  obtain fs ev where r: "read_input_file E self = (fs, ev)" by (cases "read_input_file E self")
  obtain v ev2 where v: "validate_regex E self = (v, ev2)" by (cases "validate_regex E self")
  have s: "search_stage E self fs (length fs) =
     (length (concat (search_results E self)), searched E self, search_events E self)"
    using search_stage_closed [of E self "length fs"] r by (simp add: search_events_def)
  show ?thesis
    using a r v by (simp add: process_files_def s intro_events_def)
qed

lemma process_files_delete:
  "lang self = Some l \<Longrightarrow> fst (read_input_file E self) \<noteq> [] \<Longrightarrow>
   fst (validate_regex E self) \<Longrightarrow> found_files (searched E self) \<noteq> [] \<Longrightarrow>
   delete_mode self \<Longrightarrow>
   process_files E self =
     Inr \<lparr>final = acted E (searched E self),
          trace = intro_events E self @ snd (validate_regex E self) @ search_events E self
                  @ found_events (searched E self) @ action_events ''delete'' (searched E self)
                  @ summary (acted E (searched E self)) (length (fst (read_input_file E self)))
                      (length (concat (search_results E self))),
          worker_ops = concat (map (fst \<circ> snd)
                         (as_completed (action_order E) (process_futures E (searched E self)))),
          worker_log = concat (map (snd \<circ> snd)
                         (as_completed (action_order E) (process_futures E (searched E self))))\<rparr>"
proof -
  assume a: "lang self = Some l" "fst (read_input_file E self) \<noteq> []"
    "fst (validate_regex E self)" "found_files (searched E self) \<noteq> []" "delete_mode self"
  obtain fs ev where r: "read_input_file E self = (fs, ev)" by (cases "read_input_file E self")
  obtain v ev2 where v: "validate_regex E self = (v, ev2)" by (cases "validate_regex E self")
  have s: "search_stage E self fs (length fs) =
     (length (concat (search_results E self)), searched E self, search_events E self)"
    using search_stage_closed [of E self "length fs"] r by (simp add: search_events_def)
  have d: "delete_mode (searched E self)" using a(5) by (simp add: searched_def)
  show ?thesis
    using a(1-4) r v d
    by (simp add: process_files_def s intro_events_def action_stage_closed found_events_def
          action_events_def)
qed

lemma process_files_transfer:
  "lang self = Some l \<Longrightarrow> fst (read_input_file E self) \<noteq> [] \<Longrightarrow>
   fst (validate_regex E self) \<Longrightarrow> found_files (searched E self) \<noteq> [] \<Longrightarrow>
   \<not> delete_mode self \<Longrightarrow> truthy (copy_path self) \<or> truthy (move_path self) \<Longrightarrow>
   process_files E self =
     Inr \<lparr>final = acted E (searched E self),
          trace = intro_events E self @ snd (validate_regex E self) @ search_events E self
                  @ found_events (searched E self) @ action_events ''process'' (searched E self)
                  @ summary (acted E (searched E self)) (length (fst (read_input_file E self)))
                      (length (concat (search_results E self))),
          worker_ops = concat (map (fst \<circ> snd)
                         (as_completed (action_order E) (process_futures E (searched E self)))),
          worker_log = concat (map (snd \<circ> snd)
                         (as_completed (action_order E) (process_futures E (searched E self))))\<rparr>"
proof -
  assume a: "lang self = Some l" "fst (read_input_file E self) \<noteq> []"
    "fst (validate_regex E self)" "found_files (searched E self) \<noteq> []" "\<not> delete_mode self"
    "truthy (copy_path self) \<or> truthy (move_path self)"
  obtain fs ev where r: "read_input_file E self = (fs, ev)" by (cases "read_input_file E self")
  obtain v ev2 where v: "validate_regex E self = (v, ev2)" by (cases "validate_regex E self")
  have s: "search_stage E self fs (length fs) =
     (length (concat (search_results E self)), searched E self, search_events E self)"
    using search_stage_closed [of E self "length fs"] r by (simp add: search_events_def)
  have d: "\<not> delete_mode (searched E self)"
    "truthy (copy_path (searched E self)) \<or> truthy (move_path (searched E self))"
    using a(5,6) by (simp_all add: searched_def)
  show ?thesis
    using a(1-4) r v d
    by (simp add: process_files_def s intro_events_def action_stage_closed found_events_def
          action_events_def)
qed

lemma process_files_no_action:
  "lang self = Some l \<Longrightarrow> fst (read_input_file E self) \<noteq> [] \<Longrightarrow>
   fst (validate_regex E self) \<Longrightarrow> found_files (searched E self) \<noteq> [] \<Longrightarrow>
   \<not> action_mode self \<Longrightarrow>
   process_files E self =
     Inr \<lparr>final = searched E self,
          trace = intro_events E self @ snd (validate_regex E self) @ search_events E self
                  @ found_events (searched E self)
                  @ summary (searched E self) (length (fst (read_input_file E self)))
                      (length (concat (search_results E self))),
          worker_ops = [], worker_log = []\<rparr>"
proof -
  assume a: "lang self = Some l" "fst (read_input_file E self) \<noteq> []"
    "fst (validate_regex E self)" "found_files (searched E self) \<noteq> []" "\<not> action_mode self"
  obtain fs ev where r: "read_input_file E self = (fs, ev)" by (cases "read_input_file E self")
  obtain v ev2 where v: "validate_regex E self = (v, ev2)" by (cases "validate_regex E self")
  have s: "search_stage E self fs (length fs) =
     (length (concat (search_results E self)), searched E self, search_events E self)"
    using search_stage_closed [of E self "length fs"] r by (simp add: search_events_def)
  have d: "\<not> delete_mode (searched E self)"
    "\<not> truthy (copy_path (searched E self))" "\<not> truthy (move_path (searched E self))"
    using a(5) by (simp_all add: searched_def action_mode_def)
  show ?thesis
    using a(1-4) r v d
    by (simp add: process_files_def s intro_events_def found_events_def)
qed

lemma contains_Nil: "contains [] s"
  by (cases s) simp_all

lemma found_files_acted: "found_files (acted E self) = found_files self"
  by (simp add: acted_def)

lemma process_files_found:
  assumes "lang self = Some l" "fst (read_input_file E self) \<noteq> []" "fst (validate_regex E self)"
  shows "\<exists>out. process_files E self = Inr out
           \<and> found_files (final out) = found_files (searched E self)"
proof (cases "found_files (searched E self) = []")
  case True
  then show ?thesis
    using process_files_no_matches [OF assms True] by (simp add: returned_def)
next
  case False
  show ?thesis
  proof (cases "delete_mode self")
    case True
    show ?thesis
      using process_files_delete [OF assms False True] by (simp add: found_files_acted)
  next
    case nd: False
    show ?thesis
    proof (cases "truthy (copy_path self) \<or> truthy (move_path self)")
      case True
      show ?thesis
        using process_files_transfer [OF assms False nd True] by (simp add: found_files_acted)
    next
      case False2: False
      then have "\<not> action_mode self" using nd by (simp add: action_mode_def)
      then show ?thesis
        using process_files_no_action [OF assms False] by simp
    qed
  qed
qed

lemma search_single_file_in_searched:
  assumes "f \<in> set (fst (read_input_file E self))"
  shows "set (search_single_file E f (regex_filter self)) \<subseteq> set (found_files (searched E self))"
proof -
  have "search_single_file E f (regex_filter self) \<in> set (search_results E self)"
    using assms by (simp add: search_results_def set_as_completed)
  then show ?thesis by (auto simp: searched_def)
qed

subsection \<open>The regex filter of a search\<close>

text \<open>
  Claim C5. With a regex filter that compiles, every pair returned by
  \<^verbatim>\<open>search_single_file\<close> carries the requested filename and a path that the
  pattern is found in (\<^verbatim>\<open>regex.search\<close>, not a full match). The provider ended with
  return code 0, and the path is what \<^verbatim>\<open>strip\<close> leaves of one of the lines of its
  standard output, and is not empty. Conversely every line whose stripped form is not
  empty and has the pattern in it is returned, so the pairs are exactly these. An empty
  pattern is accepted by the regex engine and found in every text (third hypothesis);
  the code applies no filter then.
\<close>

theorem search_single_file_regex_search:
  assumes "regex_pattern = Some pat" and "re_valid E pat" and "\<forall>s. re_search E [] s"
    and "(f, path) \<in> set (search_single_file E filename regex_pattern)"
  shows "re_search E pat path \<and> f = filename
         \<and> (\<exists>out. es_exe E filename = Completed 0 out
                \<and> (\<exists>line. line \<in> set (splitlines out) \<and> path = strip line \<and> path \<noteq> [])
                \<and> set (search_single_file E filename regex_pattern)
                    = {(filename, strip line) |line.
                         line \<in> set (splitlines out) \<and> strip line \<noteq> []
                         \<and> re_search E pat (strip line)})"
proof -
  obtain out where c: "es_exe E filename = Completed 0 out"
    using assms(4)
    by (cases "es_exe E filename") (auto simp: search_single_file_def split: if_splits)
  let ?paths = "stripped_lines (splitlines out)"
  have res: "search_single_file E filename regex_pattern
               = map (Pair filename) (filter (re_search E pat) ?paths)"
  proof (cases "pat = []")
    case True
    then have "search_single_file E filename regex_pattern = map (Pair filename) ?paths"
      using assms(1) c by (simp add: search_single_file_def nonempty_def truthy_def)
    moreover have "filter (re_search E pat) ?paths = ?paths"
      using assms(3) True by simp
    ultimately show ?thesis by simp
  next
    case False
    then show ?thesis
      using assms(1,2) c by (simp add: search_single_file_def nonempty_def truthy_def)
  qed
  have pairs: "set (search_single_file E filename regex_pattern)
                 = {(filename, strip line) |line.
                      line \<in> set (splitlines out) \<and> strip line \<noteq> []
                      \<and> re_search E pat (strip line)}"
    unfolding res by (auto simp: stripped_lines_def)
  then obtain line where l: "f = filename" "path = strip line" "line \<in> set (splitlines out)"
    "strip line \<noteq> []" "re_search E pat (strip line)"
    using assms(4) by auto
  have "\<exists>line. line \<in> set (splitlines out) \<and> path = strip line \<and> path \<noteq> []"
    using l by auto
  then show ?thesis using l c pairs by auto
qed

theorem search_single_file_regex_search_witness:
  "re_valid demo_env ''tmp'' \<and> (\<forall>s. re_search demo_env [] s)
   \<and> (''padded.txt'', win ''C:/tmp/padded.txt'')
        \<in> set (search_single_file demo_env ''padded.txt'' (Some ''tmp''))
   \<and> es_exe demo_env ''padded.txt'' = Completed 0 padded_stdout
   \<and> splitlines padded_stdout
        = [''  '' @ win ''C:/tmp/padded.txt'' @ ''  '', [],
           CHR 0x09 # win ''C:/x/padded.txt'', ''   '']
   \<and> strip (''  '' @ win ''C:/tmp/padded.txt'' @ ''  '') = win ''C:/tmp/padded.txt''
   \<and> search_single_file demo_env ''padded.txt'' (Some ''tmp'')
        = [(''padded.txt'', win ''C:/tmp/padded.txt'')]
   \<and> search_single_file demo_env ''padded.txt'' None
        = [(''padded.txt'', win ''C:/tmp/padded.txt''), (''padded.txt'', win ''C:/x/padded.txt'')]
   \<and> re_search demo_env ''tmp'' (win ''C:/tmp/padded.txt'')
   \<and> \<not> re_search demo_env ''tmp'' (win ''C:/x/padded.txt'')"
proof -
  have v: "re_valid demo_env ''tmp''" by code_simp
  have e: "\<forall>s. re_search demo_env [] s" by (simp add: demo_env_def contains_Nil)
  have r: "search_single_file demo_env ''padded.txt'' (Some ''tmp'')
        = [(''padded.txt'', win ''C:/tmp/padded.txt'')]"
    by code_simp
  have m: "(''padded.txt'', win ''C:/tmp/padded.txt'')
        \<in> set (search_single_file demo_env ''padded.txt'' (Some ''tmp''))"
    by (simp add: r)
  have o: "es_exe demo_env ''padded.txt'' = Completed 0 padded_stdout" by code_simp
  have sl: "splitlines padded_stdout
        = [''  '' @ win ''C:/tmp/padded.txt'' @ ''  '', [],
           CHR 0x09 # win ''C:/x/padded.txt'', ''   '']" by code_simp
  have st: "strip (''  '' @ win ''C:/tmp/padded.txt'' @ ''  '') = win ''C:/tmp/padded.txt''"
    by code_simp
  have u: "search_single_file demo_env ''padded.txt'' None
        = [(''padded.txt'', win ''C:/tmp/padded.txt''), (''padded.txt'', win ''C:/x/padded.txt'')]"
    by code_simp
  have n: "\<not> re_search demo_env ''tmp'' (win ''C:/x/padded.txt'')"
    by code_simp
  show ?thesis
    using v e r m o sl st u n search_single_file_regex_search [OF refl v e m] by blast
qed

subsection \<open>A provider that fails\<close>

text \<open>
  Claim C6. When the provider invocation raises or ends with a non-zero return code,
  \<^verbatim>\<open>search_single_file\<close> returns the empty list for that filename, whatever the regex
  filter; and a run that has such a filename in its input still returns normally, with
  every pair of every filename of the input among its found files.
\<close>


theorem provider_failure_yields_no_pairs:
  assumes "provider_failed (es_exe E filename)"
  shows "search_single_file E filename regex_pattern = []
         \<and> (filename \<in> set (fst (read_input_file E self)) \<and> lang self \<noteq> None
              \<and> fst (validate_regex E self) \<longrightarrow>
             (\<exists>out. process_files E self = Inr out
               \<and> (\<forall>f \<in> set (fst (read_input_file E self)).
                     set (search_single_file E f (regex_filter self))
                       \<subseteq> set (found_files (final out)))))"
proof -
  have a: "search_single_file E filename regex_pattern = []"
    using assms
    by (simp add: search_single_file_def provider_failed_def split: proc_result.splits)
  have "\<exists>out. process_files E self = Inr out
               \<and> (\<forall>f \<in> set (fst (read_input_file E self)).
                     set (search_single_file E f (regex_filter self))
                       \<subseteq> set (found_files (final out)))"
    if h: "filename \<in> set (fst (read_input_file E self))" "lang self \<noteq> None"
      "fst (validate_regex E self)"
  proof -
    obtain l where l: "lang self = Some l" using h(2) by auto
    have ne: "fst (read_input_file E self) \<noteq> []" using h(1) by auto
    obtain out where o: "process_files E self = Inr out"
      "found_files (final out) = found_files (searched E self)"
      using process_files_found [OF l ne h(3)] by blast
    have "\<forall>f \<in> set (fst (read_input_file E self)).
            set (search_single_file E f (regex_filter self)) \<subseteq> set (found_files (final out))"
      using search_single_file_in_searched [of _ E self] o(2) by simp
    with o(1) show ?thesis by blast
  qed
  with a show ?thesis by blast
qed

theorem provider_failure_yields_no_pairs_witness:
  "provider_failed (es_exe demo_env ''broken'')
   \<and> ''broken'' \<in> set (fst (read_input_file demo_env (EverythingSearcher demo_cfg)))
   \<and> lang (EverythingSearcher demo_cfg) \<noteq> None
   \<and> fst (validate_regex demo_env (EverythingSearcher demo_cfg))
   \<and> search_single_file demo_env ''broken'' None = []
   \<and> (\<exists>out. process_files demo_env (EverythingSearcher demo_cfg) = Inr out
         \<and> set (search_single_file demo_env ''notes.txt''
                  (regex_filter (EverythingSearcher demo_cfg)))
               \<subseteq> set (found_files (final out)))"
proof -
  have f: "provider_failed (es_exe demo_env ''broken'')" by code_simp
  have m: "''broken'' \<in> set (fst (read_input_file demo_env (EverythingSearcher demo_cfg)))"
    by code_simp
  have n: "''notes.txt'' \<in> set (fst (read_input_file demo_env (EverythingSearcher demo_cfg)))"
    by code_simp
  have l: "lang (EverythingSearcher demo_cfg) \<noteq> None" by code_simp
  have v: "fst (validate_regex demo_env (EverythingSearcher demo_cfg))" by code_simp
  show ?thesis
    using f m n l v
      provider_failure_yields_no_pairs [OF f, of None "EverythingSearcher demo_cfg"]
    by blast
qed

subsection \<open>The outcome of a run\<close>

text \<open>
  With a language manager, and unless the validation lets an exception of the compilation
  through, \<^verbatim>\<open>process_files\<close> returns, and what it returns is the closed form.
\<close>

lemma process_files_run_outcome:
  assumes l: "lang self = Some l"
    and esc: "fst (read_input_file E self) = [] \<or> \<not> compile_escapes E self"
  shows "process_files E self = Inr (run_outcome E self)"
proof (cases "fst (read_input_file E self) = []")
  case True
  show ?thesis
    unfolding process_files_no_files [OF l True] by (simp add: run_outcome_def True)
next
  case ne: False
  show ?thesis
  proof (cases "fst (validate_regex E self)")
    case False
    have ne': "\<not> compile_escapes E self" using esc ne by simp
    show ?thesis
      unfolding process_files_invalid_regex [OF l ne False ne']
      by (simp add: run_outcome_def ne False)
  next
    case v: True
    show ?thesis
    proof (cases "found_files (searched E self) = []")
      case True
      show ?thesis
        unfolding process_files_no_matches [OF l ne v True]
        by (simp add: run_outcome_def ne v True)
    next
      case f: False
      show ?thesis
      proof (cases "delete_mode self")
        case True
        then have am: "action_mode self" "action_phase self = ''delete''"
          by (simp_all add: action_mode_def action_phase_def)
        show ?thesis
          unfolding process_files_delete [OF l ne v f True]
          by (simp add: run_outcome_def ne v f am)
      next
        case nd: False
        show ?thesis
        proof (cases "truthy (copy_path self) \<or> truthy (move_path self)")
          case True
          then have am: "action_mode self" "action_phase self = ''process''"
            using nd by (simp_all add: action_mode_def action_phase_def)
          show ?thesis
            unfolding process_files_transfer [OF l ne v f nd True]
            by (simp add: run_outcome_def ne v f am)
        next
          case False
          then have na: "\<not> action_mode self" using nd by (simp add: action_mode_def)
          show ?thesis
            unfolding process_files_no_action [OF l ne v f na]
            by (simp add: run_outcome_def ne v f na)
        qed
      qed
    qed
  qed
qed

lemma process_files_Inr:
  assumes "process_files E self = Inr out"
  shows "lang self \<noteq> None" and "out = run_outcome E self"
proof -
  show l: "lang self \<noteq> None"
    using assms process_files_no_lang [of self E] by auto
  then obtain x where x: "lang self = Some x" by auto
  have "fst (read_input_file E self) = [] \<or> \<not> compile_escapes E self"
    using assms process_files_compile_escapes [OF x] by fastforce
  then show "out = run_outcome E self"
    using assms process_files_run_outcome [OF x] by simp
qed

lemma EverythingSearcher_lists:
  "found_files (EverythingSearcher cfg) = []"
  "processed_files (EverythingSearcher cfg) = []"
  "failed_files (EverythingSearcher cfg) = []"
  by (simp_all add: EverythingSearcher_def config.defs searcher.defs)

lemma EverythingSearcher_config:
  "input_file (EverythingSearcher cfg) = input_file cfg"
  "input_text (EverythingSearcher cfg) = input_text cfg"
  "copy_path (EverythingSearcher cfg) = copy_path cfg"
  "move_path (EverythingSearcher cfg) = move_path cfg"
  "log_path (EverythingSearcher cfg) = log_path cfg"
  "match_folder_structure (EverythingSearcher cfg) = match_folder_structure cfg"
  "delete_mode (EverythingSearcher cfg) = delete_mode cfg"
  "regex_filter (EverythingSearcher cfg) = regex_filter cfg"
  "lang (EverythingSearcher cfg) = lang cfg"
  by (simp_all add: EverythingSearcher_def config.defs)

lemma searched_lists:
  "processed_files (searched E s) = processed_files s"
  "failed_files (searched E s) = failed_files s"
  "found_files (searched E s) = found_files s @ concat (search_results E s)"
  by (simp_all add: searched_def)

lemma acted_lists:
  "processed_files (acted E s) = processed_files s @ successes (found_files s) (action_results E s)"
  "failed_files (acted E s) = failed_files s @ failures (found_files s) (action_results E s)"
  by (simp_all add: acted_def)

lemma final_run_outcome:
  "final (run_outcome E self) =
     (if fst (read_input_file E self) = [] \<or> \<not> fst (validate_regex E self) then self
      else if found_files (searched E self) \<noteq> [] \<and> action_mode self
      then acted E (searched E self)
      else searched E self)"
  by (simp add: run_outcome_def returned_def)

lemma worker_ops_run_outcome:
  "worker_ops (run_outcome E self) =
     (if fst (read_input_file E self) \<noteq> [] \<and> fst (validate_regex E self)
         \<and> found_files (searched E self) \<noteq> [] \<and> action_mode self
      then concat (map (fst \<circ> snd)
             (as_completed (action_order E) (process_futures E (searched E self))))
      else [])"
  by (simp add: run_outcome_def returned_def)

lemma acted_counts:
  "length (processed_files (acted E s)) + length (failed_files (acted E s))
     = length (processed_files s) + length (failed_files s) + length (found_files s)"
  using length_successes_failures [of "action_results E s" "found_files s"]
  by (simp add: acted_def length_action_results)

lemma run_outcome_counts:
  assumes "found_files self = []" "processed_files self = []" "failed_files self = []"
    and "action_mode self"
  shows "length (processed_files (final (run_outcome E self)))
           + length (failed_files (final (run_outcome E self)))
         = length (found_files (final (run_outcome E self)))"
proof (cases "fst (read_input_file E self) = [] \<or> \<not> fst (validate_regex E self)")
  case True
  then have "final (run_outcome E self) = self" by (simp add: final_run_outcome)
  then show ?thesis using assms by simp
next
  case False
  show ?thesis
  proof (cases "found_files (searched E self) = []")
    case True
    then have "final (run_outcome E self) = searched E self"
      using False by (simp add: final_run_outcome)
    then show ?thesis using assms True by (simp add: searched_lists(1,2))
  next
    case f: False
    then have "final (run_outcome E self) = acted E (searched E self)"
      using False assms(4) by (simp add: final_run_outcome)
    then show ?thesis
      using assms acted_counts [of E "searched E self"]
      by (simp add: searched_lists(1,2) found_files_acted)
  qed
qed

lemma run_outcome_found_count:
  assumes "found_files self = []"
  shows "found_files (final (run_outcome E self)) = [] \<or>
         length (concat (search_results E self)) = length (found_files (final (run_outcome E self)))"
  using assms by (simp add: final_run_outcome found_files_acted searched_lists)

lemma run_outcome_summary:
  assumes "fst (read_input_file E self) \<noteq> []" "fst (validate_regex E self)"
    "found_files (searched E self) \<noteq> []"
  shows "\<exists>pre. trace (run_outcome E self) =
           pre @ summary (final (run_outcome E self)) (length (fst (read_input_file E self)))
                   (length (concat (search_results E self)))"
proof (cases "action_mode self")
  case True
  have "trace (run_outcome E self) =
          (intro_events E self @ snd (validate_regex E self) @ search_events E self
           @ found_events (searched E self) @ action_events (action_phase self) (searched E self))
          @ summary (final (run_outcome E self)) (length (fst (read_input_file E self)))
                   (length (concat (search_results E self)))"
    using assms True by (simp add: run_outcome_def)
  then show ?thesis by blast
next
  case False
  have "trace (run_outcome E self) =
          (intro_events E self @ snd (validate_regex E self) @ search_events E self
           @ found_events (searched E self))
          @ summary (final (run_outcome E self)) (length (fst (read_input_file E self)))
                   (length (concat (search_results E self)))"
    using assms False by (simp add: run_outcome_def)
  then show ?thesis by blast
qed

lemma run_outcome_found_nonempty:
  assumes "found_files self = []" "found_files (final (run_outcome E self)) \<noteq> []"
  shows "fst (read_input_file E self) \<noteq> []" "fst (validate_regex E self)"
    "found_files (searched E self) \<noteq> []"
    "found_files (final (run_outcome E self)) = found_files (searched E self)"
    "length (concat (search_results E self)) = length (found_files (final (run_outcome E self)))"
  using assms
  by (auto simp: final_run_outcome found_files_acted searched_lists split: if_splits)

lemma demo_run: "process_files demo_env (EverythingSearcher demo_cfg) = Inr demo_out"
  by code_simp

lemma demo_run_in_order:
  "process_files (demo_env\<lparr>action_order := []\<rparr>) (EverythingSearcher demo_cfg)
     = Inr demo_out_in_order"
  by code_simp

lemma demo_action_mode: "action_mode (EverythingSearcher demo_cfg)"
  by code_simp

subsection \<open>The counts of a run\<close>

text \<open>
  Claim C9. For a run of a freshly constructed searcher with an action mode configured
  (delete, copy or move), the final counts satisfy succeeded + failed = found: the
  lengths of \<^verbatim>\<open>processed_files\<close> and \<^verbatim>\<open>failed_files\<close> add up to the length of
  \<^verbatim>\<open>found_files\<close>. When the action stage ran (something was found), the trace ends with
  the summary of exactly these lists, the found count being the length of
  \<^verbatim>\<open>found_files\<close>.
\<close>


theorem action_counts_sum_to_found:
  assumes "process_files E (EverythingSearcher cfg) = Inr out"
    and "action_mode (EverythingSearcher cfg)"
  shows "length (processed_files (final out)) + length (failed_files (final out))
           = length (found_files (final out))
         \<and> (found_files (final out) = [] \<or>
             (\<exists>pre. trace out =
                pre @ summary (final out)
                        (length (fst (read_input_file E (EverythingSearcher cfg))))
                        (length (found_files (final out)))))"
proof -
  let ?self = "EverythingSearcher cfg"
  have out: "out = run_outcome E ?self"
    using process_files_Inr(2) [OF assms(1)] .
  have counts: "length (processed_files (final out)) + length (failed_files (final out))
           = length (found_files (final out))"
    unfolding out
    by (rule run_outcome_counts) (simp_all add: EverythingSearcher_lists assms(2))
  have "\<exists>pre. trace out =
          pre @ summary (final out) (length (fst (read_input_file E ?self)))
                  (length (found_files (final out)))"
    if ne: "found_files (final out) \<noteq> []"
  proof -
    have fresh: "found_files ?self = []" by (simp add: EverythingSearcher_lists)
    have ne': "found_files (final (run_outcome E ?self)) \<noteq> []" using ne out by simp
    note r = run_outcome_found_nonempty [OF fresh ne']
    show ?thesis
      using run_outcome_summary [OF r(1) r(2) r(3)] r(5) out by simp
  qed
  with counts show ?thesis by blast
qed

theorem action_counts_sum_to_found_witness:
  "process_files demo_env (EverythingSearcher demo_cfg) = Inr demo_out
   \<and> action_mode (EverythingSearcher demo_cfg)
   \<and> length (processed_files (final demo_out)) = 2
   \<and> length (failed_files (final demo_out)) = 1
   \<and> length (found_files (final demo_out)) = 3
   \<and> length (processed_files (final demo_out)) + length (failed_files (final demo_out))
       = length (found_files (final demo_out))"
proof -
  have p: "length (processed_files (final demo_out)) = 2" by code_simp
  have f: "length (failed_files (final demo_out)) = 1" by code_simp
  have n: "length (found_files (final demo_out)) = 3" by code_simp
  show ?thesis
    using action_counts_sum_to_found [OF demo_run demo_action_mode] demo_run demo_action_mode
      p f n
    by simp
qed

subsection \<open>The results of the action futures\<close>

lemma enumerate_nth: "enumerate 0 xs = map (\<lambda>i. (i, xs ! i)) [0..<length xs]"
  by (rule nth_equalityI) (simp_all add: nth_enumerate_eq)

lemma process_futures_nth:
  "process_futures E s =
     map (\<lambda>i. process_file (fs_raises E i) E s (found_files s ! i)) [0..<length (found_files s)]"
  by (simp add: process_futures_def enumerate_nth)

lemma searched_config:
  "copy_path (searched E s) = copy_path s"
  "move_path (searched E s) = move_path s"
  "delete_mode (searched E s) = delete_mode s"
  "match_folder_structure (searched E s) = match_folder_structure s"
  by (simp_all add: searched_def)

lemma transfer_ops_searched:
  "transfer_ops E (searched E' s) act root file_info = transfer_ops E s act root file_info"
  by (cases file_info) (simp add: transfer_ops_def searched_config)

lemma process_file_ops_searched:
  "process_file_ops E (searched E' s) file_info = process_file_ops E s file_info"
  by (cases file_info)
     (simp add: process_file_ops_def searched_config transfer_ops_searched
           cong: option.case_cong)

lemma process_file_searched:
  "process_file raises E (searched E' s) file_info = process_file raises E s file_info"
  by (simp add: process_file_def process_file_ops_searched)

lemma action_results_nth:
  "action_results E (searched E s) =
     map (action_ok E s (found_files (searched E s)))
       (completion_order E (length (found_files (searched E s))))"
  by (simp add: action_results_def process_futures_nth as_completed_map completion_order_def
        action_ok_def process_file_searched)

lemma length_completion_order: "length (completion_order E n) = n"
  by (simp add: completion_order_def length_as_completed)

lemma successes_by_completion:
  "successes (found_files (searched E s)) (action_results E (searched E s)) =
     map (\<lambda>k. found_files (searched E s) ! k)
       (filter (\<lambda>k. action_ok E s (found_files (searched E s))
                      (completion_order E (length (found_files (searched E s))) ! k))
          [0..<length (found_files (searched E s))])"
proof -
  let ?ffs = "found_files (searched E s)"
  let ?rs = "action_results E (searched E s)"
  have len: "length ?rs = length ?ffs" by (rule length_action_results)
  have "filter (\<lambda>k. ?rs ! k) [0..<length ?ffs]
        = filter (\<lambda>k. action_ok E s ?ffs (completion_order E (length ?ffs) ! k)) [0..<length ?ffs]"
    by (rule filter_cong) (simp_all add: action_results_nth length_completion_order)
  then show ?thesis using successes_nth [OF len] by simp
qed

lemma failures_by_completion:
  "failures (found_files (searched E s)) (action_results E (searched E s)) =
     map (\<lambda>k. found_files (searched E s) ! k)
       (filter (\<lambda>k. \<not> action_ok E s (found_files (searched E s))
                      (completion_order E (length (found_files (searched E s))) ! k))
          [0..<length (found_files (searched E s))])"
proof -
  let ?ffs = "found_files (searched E s)"
  let ?rs = "action_results E (searched E s)"
  have len: "length ?rs = length ?ffs" by (rule length_action_results)
  have "filter (\<lambda>k. \<not> ?rs ! k) [0..<length ?ffs]
        = filter (\<lambda>k. \<not> action_ok E s ?ffs (completion_order E (length ?ffs) ! k)) [0..<length ?ffs]"
    by (rule filter_cong) (simp_all add: action_results_nth length_completion_order)
  then show ?thesis using failures_nth [OF len] by simp
qed

lemma demo_order_matters:
  "failed_files (final demo_out) \<noteq> failed_files (final demo_out_in_order)"
  by code_simp

subsection \<open>Which file a result is recorded for\<close>

text \<open>
  Claim C10. In the action stage the entry recorded at the \<open>k\<close>-th completion is
  \<^verbatim>\<open>found_files[k-1]\<close>, while the result that decides between \<^verbatim>\<open>processed_files\<close>
  and \<^verbatim>\<open>failed_files\<close> is the one of the future that completed \<open>k\<close>-th, whichever
  file that future worked on. So for every completion order the two lists together hold
  each element of \<^verbatim>\<open>found_files\<close> exactly once (as multisets), and which file is
  recorded as failed depends on the order: the two example runs differ in nothing but the
  completion order of the action pool and record different files as failed.
\<close>


theorem outcome_attributed_by_completion_count:
  assumes "process_files E (EverythingSearcher cfg) = Inr out"
    and "action_mode (EverythingSearcher cfg)"
  shows "(let entries = found_files (final out);
              order = completion_order E (length entries);
              ok = action_ok E (EverythingSearcher cfg) entries
          in processed_files (final out)
               = map (\<lambda>k. entries ! k) (filter (\<lambda>k. ok (order ! k)) [0..<length entries])
           \<and> failed_files (final out)
               = map (\<lambda>k. entries ! k) (filter (\<lambda>k. \<not> ok (order ! k)) [0..<length entries])
           \<and> mset (processed_files (final out) @ failed_files (final out)) = mset entries)
         \<and> process_files demo_env (EverythingSearcher demo_cfg) = Inr demo_out
         \<and> process_files (demo_env\<lparr>action_order := []\<rparr>) (EverythingSearcher demo_cfg)
               = Inr demo_out_in_order
         \<and> failed_files (final demo_out) \<noteq> failed_files (final demo_out_in_order)"
proof -
  let ?self = "EverythingSearcher cfg"
  have out: "out = run_outcome E ?self"
    using process_files_Inr(2) [OF assms(1)] .
  have fresh: "found_files ?self = []" "processed_files ?self = []" "failed_files ?self = []"
    by (simp_all add: EverythingSearcher_lists)
  have main: "(let entries = found_files (final out);
              order = completion_order E (length entries);
              ok = action_ok E ?self entries
          in processed_files (final out)
               = map (\<lambda>k. entries ! k) (filter (\<lambda>k. ok (order ! k)) [0..<length entries])
           \<and> failed_files (final out)
               = map (\<lambda>k. entries ! k) (filter (\<lambda>k. \<not> ok (order ! k)) [0..<length entries])
           \<and> mset (processed_files (final out) @ failed_files (final out)) = mset entries)"
  proof (cases "fst (read_input_file E ?self) = [] \<or> \<not> fst (validate_regex E ?self)")
    case True
    then have "final out = ?self" using out by (simp add: final_run_outcome)
    then show ?thesis using fresh by simp
  next
    case False
    show ?thesis
    proof (cases "found_files (searched E ?self) = []")
      case True
      then have "final out = searched E ?self"
        using False out by (simp add: final_run_outcome)
      then show ?thesis using fresh True by (simp add: searched_lists(1,2))
    next
      case f: False
      have fin: "final out = acted E (searched E ?self)"
        using False f assms(2) out by (simp add: final_run_outcome)
      let ?ffs = "found_files (searched E ?self)"
      let ?rs = "action_results E (searched E ?self)"
      have p: "processed_files (final out) = successes ?ffs ?rs"
        using fin fresh by (simp add: acted_lists searched_lists(1,2))
      have q: "failed_files (final out) = failures ?ffs ?rs"
        using fin fresh by (simp add: acted_lists searched_lists(1,2))
      have e: "found_files (final out) = ?ffs"
        using fin by (simp add: found_files_acted)
      have m: "mset (successes ?ffs ?rs @ failures ?ffs ?rs) = mset ?ffs"
        by (rule mset_successes_failures) (rule length_action_results)
      show ?thesis
        unfolding Let_def p q e
        using successes_by_completion [of E ?self] failures_by_completion [of E ?self] m
        by simp
    qed
  qed
  show ?thesis
    using main demo_run demo_run_in_order demo_order_matters by blast
qed

theorem outcome_attributed_by_completion_count_witness:
  "process_files demo_env (EverythingSearcher demo_cfg) = Inr demo_out
   \<and> action_mode (EverythingSearcher demo_cfg)
   \<and> completion_order demo_env 3 = [2, 0, 1]
   \<and> \<not> action_ok demo_env (EverythingSearcher demo_cfg) (found_files (final demo_out)) 1
   \<and> action_ok demo_env (EverythingSearcher demo_cfg) (found_files (final demo_out)) 2
   \<and> failed_files (final demo_out) = [found_files (final demo_out) ! 2]
   \<and> processed_files (final demo_out)
        = [found_files (final demo_out) ! 0, found_files (final demo_out) ! 1]
   \<and> mset (processed_files (final demo_out) @ failed_files (final demo_out))
        = mset (found_files (final demo_out))"
proof -
  have a: "completion_order demo_env 3 = [2, 0, 1]" by code_simp
  have b: "\<not> action_ok demo_env (EverythingSearcher demo_cfg) (found_files (final demo_out)) 1"
    by code_simp
  have c: "action_ok demo_env (EverythingSearcher demo_cfg) (found_files (final demo_out)) 2"
    by code_simp
  have d: "failed_files (final demo_out) = [found_files (final demo_out) ! 2]" by code_simp
  have e: "processed_files (final demo_out)
        = [found_files (final demo_out) ! 0, found_files (final demo_out) ! 1]" by code_simp
  have m: "mset (processed_files (final demo_out) @ failed_files (final demo_out))
        = mset (found_files (final demo_out))"
    using outcome_attributed_by_completion_count [OF demo_run demo_action_mode]
    unfolding Let_def by blast
  show ?thesis
    using demo_run demo_action_mode a b c d e m by blast
qed

subsection \<open>File operations and progress events of a run\<close>

lemma process_file_delete:
  assumes "delete_mode self"
  shows "process_file raises E self file_info =
           (\<not> raises 0, [Remove (snd file_info)],
            if raises 0 then [ErrorProcessing (snd file_info)] else [])"
  using assms by (cases file_info) (simp add: process_file_def process_file_ops_def)

lemma set_worker_ops:
  "set (concat (map (fst \<circ> snd) (as_completed cs (process_futures E s))))
     = (\<Union>(i, file_info) \<in> set (enumerate 0 (found_files s)).
          set (fst (snd (process_file (fs_raises E i) E s file_info))))"
proof -
  have "map (fst \<circ> snd) (as_completed cs (process_futures E s))
          = as_completed cs (map (fst \<circ> snd) (process_futures E s))"
    by (simp add: as_completed_map)
  then have "set (concat (map (fst \<circ> snd) (as_completed cs (process_futures E s))))
          = \<Union> (set ` set (map (fst \<circ> snd) (process_futures E s)))"
    by (simp add: set_as_completed del: set_map)
  also have "\<dots> = (\<Union>(i, file_info) \<in> set (enumerate 0 (found_files s)).
          set (fst (snd (process_file (fs_raises E i) E s file_info))))"
    by (auto simp: process_futures_def)
  finally show ?thesis .
qed

lemma worker_ops_delete:
  assumes "delete_mode s"
  shows "set (concat (map (fst \<circ> snd) (as_completed cs (process_futures E s))))
           \<subseteq> Remove ` snd ` set (found_files s)"
proof -
  have "set (fst (snd (process_file (fs_raises E i) E s file_info))) \<subseteq> Remove ` snd ` set (found_files s)"
    if "(i, file_info) \<in> set (enumerate 0 (found_files s))" for i file_info
  proof -
    have "file_info \<in> set (found_files s)"
      using that by (auto simp: in_set_enumerate_eq)
    then show ?thesis by (simp add: process_file_delete [OF assms])
  qed
  then show ?thesis unfolding set_worker_ops by blast
qed

lemma progress_events_phase:
  "Progress ph k n \<in> set (progress_events ph' n' k' m) \<Longrightarrow> ph = ph'"
  by (induction m arbitrary: k') auto

lemma read_input_file_events:
  "e \<in> set (snd (read_input_file E self)) \<Longrightarrow> e = Log ErrorReadingInput"
  by (auto simp: read_input_file_def split: option.splits)

lemma validate_regex_events:
  "e \<in> set (snd (validate_regex E self)) \<Longrightarrow> \<exists>pat. e = ReCompile pat"
  by (auto simp: validate_regex_def split: option.splits)

lemma summary_events: "e \<in> set (summary s n m) \<Longrightarrow> \<exists>x. e = Log x"
  by (auto simp: summary_def split: if_splits)

lemma progress_in_trace:
  assumes "Progress ph k n \<in> set (trace (run_outcome E self))"
  shows "ph = ''search'' \<or> ph = action_phase self"
proof -
  have a: "Progress ph k n \<notin> set (intro_events E self)"
    using read_input_file_events [of "Progress ph k n" E self]
    by (auto simp: intro_events_def)
  have b: "Progress ph k n \<notin> set (snd (validate_regex E self))"
    using validate_regex_events [of "Progress ph k n" E self] by auto
  have c: "Progress ph k n \<in> set (search_events E self) \<Longrightarrow> ph = ''search''"
    by (auto simp: search_events_def dest: progress_events_phase)
  have d: "Progress ph k n \<notin> set (found_events s)" for s
    by (auto simp: found_events_def)
  have e: "Progress ph k n \<in> set (action_events p s) \<Longrightarrow> ph = p" for p s
    by (auto simp: action_events_def dest: progress_events_phase)
  have f: "Progress ph k n \<notin> set (summary s i j)" for s i j
    using summary_events [of "Progress ph k n" s i j] by auto
  have g: "Progress ph k n \<notin> set (snd (read_input_file E self))"
    using read_input_file_events [of "Progress ph k n" E self] by auto
  show ?thesis
    using assms a b c d e f g
    by (auto simp: run_outcome_def returned_def split: if_splits)
qed

lemma demo_delete_run:
  "process_files demo_env (EverythingSearcher demo_delete_cfg) = Inr demo_delete_out"
  by code_simp

lemma found_files_final_run_outcome:
  "fst (read_input_file E self) \<noteq> [] \<Longrightarrow> fst (validate_regex E self) \<Longrightarrow>
   found_files (final (run_outcome E self)) = found_files (searched E self)"
  by (simp add: final_run_outcome found_files_acted)

subsection \<open>Delete mode\<close>

text \<open>
  Claim C1. With delete mode active, \<^verbatim>\<open>process_file\<close> attempts the removal of the
  source and nothing else, whatever copy and move destinations are configured; and in a
  run of \<^verbatim>\<open>process_files\<close> every file operation of the workers is the removal of a
  found path, so no copy and no move is performed, and the copy/move pool (progress
  label \<^verbatim>\<open>process\<close>) is never dispatched.
\<close>


theorem delete_mode_excludes_copy_and_move:
  assumes "delete_mode self" and "process_files E self = Inr out"
  shows "process_file raises E self (filename, source_path)
           = (\<not> raises 0, [Remove source_path],
              if raises 0 then [ErrorProcessing source_path] else [])
         \<and> set (worker_ops out) \<subseteq> Remove ` snd ` set (found_files (final out))
         \<and> Copy2 src dst \<notin> set (worker_ops out)
         \<and> Move src dst \<notin> set (worker_ops out)
         \<and> Progress ''process'' k n \<notin> set (trace out)"
proof -
  have out: "out = run_outcome E self"
    using process_files_Inr(2) [OF assms(2)] .
  have a: "process_file raises E self (filename, source_path)
           = (\<not> raises 0, [Remove source_path],
              if raises 0 then [ErrorProcessing source_path] else [])"
    using process_file_delete [OF assms(1), of raises E "(filename, source_path)"] by simp
  have b: "set (worker_ops out) \<subseteq> Remove ` snd ` set (found_files (final out))"
  proof (cases "fst (read_input_file E self) \<noteq> [] \<and> fst (validate_regex E self)
                 \<and> found_files (searched E self) \<noteq> [] \<and> action_mode self")
    case True
    have d: "delete_mode (searched E self)" using assms(1) by (simp add: searched_config)
    have "found_files (final out) = found_files (searched E self)"
      using True out by (simp add: found_files_final_run_outcome)
    then show ?thesis
      using True out worker_ops_delete [OF d, of "action_order E" E]
      by (simp add: worker_ops_run_outcome)
  next
    case False
    have "worker_ops (run_outcome E self) = []"
      unfolding worker_ops_run_outcome using False by (rule if_not_P)
    then show ?thesis using out by simp
  qed
  have c: "Copy2 src dst \<notin> set (worker_ops out)" "Move src dst \<notin> set (worker_ops out)"
    using b by auto
  have "action_phase self = ''delete''" using assms(1) by (simp add: action_phase_def)
  then have d: "Progress ''process'' k n \<notin> set (trace out)"
    using progress_in_trace [of "''process''" k n E self] out by auto
  show ?thesis using a b c d by blast
qed

theorem delete_mode_excludes_copy_and_move_witness:
  "delete_mode (EverythingSearcher demo_delete_cfg)
   \<and> process_files demo_env (EverythingSearcher demo_delete_cfg) = Inr demo_delete_out
   \<and> truthy (copy_path (EverythingSearcher demo_delete_cfg))
   \<and> worker_ops demo_delete_out
        = [Remove (win ''C:/a/b/notes.txt''), Remove (win ''C:/Users/a/report.docx''),
           Remove (win ''C:/tmp/report.docx'')]
   \<and> set (worker_ops demo_delete_out)
        \<subseteq> Remove ` snd ` set (found_files (final demo_delete_out))
   \<and> Copy2 (win ''C:/a/b/notes.txt'') (win ''D:/out/notes.txt'') \<notin> set (worker_ops demo_delete_out)"
proof -
  have d: "delete_mode (EverythingSearcher demo_delete_cfg)" by code_simp
  have t: "truthy (copy_path (EverythingSearcher demo_delete_cfg))" by code_simp
  have w: "worker_ops demo_delete_out
        = [Remove (win ''C:/a/b/notes.txt''), Remove (win ''C:/Users/a/report.docx''),
           Remove (win ''C:/tmp/report.docx'')]" by code_simp
  show ?thesis
    using d t w demo_delete_run
      delete_mode_excludes_copy_and_move [OF d demo_delete_run,
        of _ _ _ "win ''C:/a/b/notes.txt''" "win ''D:/out/notes.txt''"]
    by blast
qed

subsection \<open>Submissions and compilations in the trace\<close>

lemma read_input_file_lines:
  "fst (read_input_file E self) = stripped_lines (input_lines E self)"
  by (simp add: read_input_file_def input_lines_def stripped_lines_def split: option.splits)

lemma search_units_append: "search_units (xs @ ys) = search_units xs @ search_units ys"
  by (induction xs rule: search_units.induct) simp_all

lemma regex_compiles_append: "regex_compiles (xs @ ys) = regex_compiles xs @ regex_compiles ys"
  by (induction xs rule: regex_compiles.induct) simp_all

lemma search_units_Log: "search_units (map Log xs) = []"
  by (induction xs) simp_all

lemma regex_compiles_Log: "regex_compiles (map Log xs) = []"
  by (induction xs) simp_all

lemma search_units_Submit_search: "search_units (map Submit_search fs) = fs"
  by (induction fs) simp_all

lemma search_units_Submit_process: "search_units (map Submit_process fs) = []"
  by (induction fs) simp_all

lemma search_units_progress: "search_units (progress_events ph n k m) = []"
  by (induction m arbitrary: k) simp_all

lemma search_units_read: "search_units (snd (read_input_file E self)) = []"
  by (simp add: read_input_file_def split: option.splits)

lemma regex_compiles_read: "regex_compiles (snd (read_input_file E self)) = []"
  by (simp add: read_input_file_def split: option.splits)

lemma search_units_intro: "search_units (intro_events E self) = []"
proof -
  have "search_units (map (\<lambda>filename. Log (Requested filename)) fs) = []" for fs
    by (induction fs) simp_all
  then show ?thesis
    by (simp add: intro_events_def search_units_append search_units_read)
qed

lemma regex_compiles_intro: "regex_compiles (intro_events E self) = []"
proof -
  have "regex_compiles (map (\<lambda>filename. Log (Requested filename)) fs) = []" for fs
    by (induction fs) simp_all
  then show ?thesis
    by (simp add: intro_events_def regex_compiles_append regex_compiles_read)
qed

lemma search_units_validate: "search_units (snd (validate_regex E self)) = []"
  by (simp add: validate_regex_def split: option.splits)

lemma search_units_search_events:
  "search_units (search_events E self) = fst (read_input_file E self)"
  by (simp add: search_events_def search_units_append search_units_Submit_search
        search_units_progress)

lemma search_units_found: "search_units (found_events s) = []"
proof -
  have "search_units (map (\<lambda>(_, full_path). Log (FoundPath full_path)) fs) = []" for fs
    by (induction fs) auto
  then show ?thesis by (simp add: found_events_def)
qed

lemma search_units_action: "search_units (action_events ph s) = []"
  by (simp add: action_events_def search_units_append search_units_Submit_process
        search_units_progress)

lemma search_units_summary: "search_units (summary s n m) = []"
  by (simp add: summary_def search_units_append)

lemma search_units_run_outcome:
  "search_units (trace (run_outcome E self)) =
     (if fst (validate_regex E self) then fst (read_input_file E self) else [])"
  by (simp add: run_outcome_def returned_def search_units_append search_units_read
        search_units_intro search_units_validate search_units_search_events
        search_units_found search_units_action search_units_summary)

subsection \<open>The units of work of the search pool\<close>

text \<open>
  Claim C2, amended. The claim counts the distinct input lines; the code submits one
  search per non-blank line and never removes a repeated line (the counterexample after the theorem: two lines that strip to the same name give
  two units). What holds: in every run that reaches the search stage (a language manager was
  given, and the regex filter, if any, compiles), the searches submitted are the stripped
  non-blank input lines, in input order and as often as they occur, so their number is
  the number of non-blank input lines.
\<close>


theorem search_units_are_nonblank_lines:
  assumes "lang self \<noteq> None" and "fst (validate_regex E self)"
  shows "\<exists>out. process_files E self = Inr out
           \<and> search_units (trace out)
               = map strip (filter (\<lambda>line. strip line \<noteq> []) (input_lines E self))
           \<and> length (search_units (trace out))
               = length (filter (\<lambda>line. strip line \<noteq> []) (input_lines E self))"
proof -
  obtain l where l: "lang self = Some l" using assms(1) by auto
  have r: "process_files E self = Inr (run_outcome E self)"
    using process_files_run_outcome [OF l] compile_escapes_invalid [of E] assms(2) by blast
  have u: "search_units (trace (run_outcome E self))
             = map strip (filter (\<lambda>line. strip line \<noteq> []) (input_lines E self))"
    using assms(2)
    by (simp add: search_units_run_outcome read_input_file_lines stripped_lines_def)
  then have "length (search_units (trace (run_outcome E self)))
               = length (filter (\<lambda>line. strip line \<noteq> []) (input_lines E self))"
    by simp
  with r u show ?thesis by blast
qed

theorem search_units_are_nonblank_lines_witness:
  "lang (EverythingSearcher demo_cfg) \<noteq> None
   \<and> fst (validate_regex demo_env (EverythingSearcher demo_cfg))
   \<and> input_lines demo_env (EverythingSearcher demo_cfg)
        = [''report.docx'', ''broken'', '' notes.txt '']
   \<and> (\<exists>out. process_files demo_env (EverythingSearcher demo_cfg) = Inr out
         \<and> search_units (trace out) = [''report.docx'', ''broken'', ''notes.txt''])"
proof -
  have l: "lang (EverythingSearcher demo_cfg) \<noteq> None" by code_simp
  have v: "fst (validate_regex demo_env (EverythingSearcher demo_cfg))" by code_simp
  have i: "input_lines demo_env (EverythingSearcher demo_cfg)
        = [''report.docx'', ''broken'', '' notes.txt '']" by code_simp
  have s: "map strip (filter (\<lambda>line. strip line \<noteq> [])
             [''report.docx'', ''broken'', '' notes.txt''])
           = [''report.docx'', ''broken'', ''notes.txt'']" by code_simp
  have s': "map strip (filter (\<lambda>line. strip line \<noteq> [])
             (input_lines demo_env (EverythingSearcher demo_cfg)))
           = [''report.docx'', ''broken'', ''notes.txt'']" by code_simp
  show ?thesis
    using l v i s' search_units_are_nonblank_lines [OF l v] by auto
qed

theorem search_units_count_duplicates:
  "process_files demo_env (EverythingSearcher demo_dup_cfg) = Inr demo_dup_out
   \<and> input_lines demo_env (EverythingSearcher demo_dup_cfg) = [''notes.txt'', '' notes.txt '']
   \<and> search_units (trace demo_dup_out) = [''notes.txt'', ''notes.txt'']
   \<and> length (search_units (trace demo_dup_out)) = 2
   \<and> card (set (map strip (filter (\<lambda>line. strip line \<noteq> [])
              (input_lines demo_env (EverythingSearcher demo_dup_cfg))))) = 1"
  by code_simp

subsection \<open>The summary\<close>

text \<open>
  Claim C3, amended. The claim promises a summary for every run that passes validation
  with a non-empty filename list; a run that finds nothing logs the no-matches message
  and returns without one (the counterexample after the theorem). What
  holds: every run with a language manager that passes regex validation and finds at
  least one file ends its trace with the summary: the header, the requested count, the
  found count, the succeeded count, then the failed count when at least one action
  failed, then the actions taken when any is configured. Nothing is assumed about the
  file operations, so this holds when every action fails.
\<close>


theorem summary_ends_run_with_found_files:
  assumes "lang cfg \<noteq> None" and "fst (validate_regex E (EverythingSearcher cfg))"
    and "filename \<in> set (fst (read_input_file E (EverythingSearcher cfg)))"
    and "search_single_file E filename (regex_filter cfg) \<noteq> []"
  shows "\<exists>out pre. process_files E (EverythingSearcher cfg) = Inr out
           \<and> trace out =
               pre @ [Log SummaryHeader,
                      Log (TotalProcessed (length (fst (read_input_file E (EverythingSearcher cfg))))),
                      Log (TotalFound (length (found_files (final out)))),
                      Log (SuccessProcessed (length (processed_files (final out))))]
                   @ (if failed_files (final out) \<noteq> []
                      then [Log (FailedOperations (length (failed_files (final out))))] else [])
                   @ (if actions_taken (final out) \<noteq> []
                      then [Log (ActionsTaken (actions_taken (final out)))] else [])"
proof -
  let ?self = "EverythingSearcher cfg"
  obtain l where l: "lang ?self = Some l" using assms(1) by (auto simp: EverythingSearcher_config)
  have r: "process_files E ?self = Inr (run_outcome E ?self)"
    using process_files_run_outcome [OF l] compile_escapes_invalid [of E] assms(2) by blast
  have ne: "fst (read_input_file E ?self) \<noteq> []" using assms(3) by auto
  have "set (search_single_file E filename (regex_filter ?self))
          \<subseteq> set (found_files (searched E ?self))"
    by (rule search_single_file_in_searched [OF assms(3)])
  then have f: "found_files (searched E ?self) \<noteq> []"
    using assms(4) by (auto simp: EverythingSearcher_config)
  have fresh: "found_files ?self = []" by (simp add: EverythingSearcher_lists)
  have n: "length (concat (search_results E ?self))
             = length (found_files (final (run_outcome E ?self)))"
    using ne assms(2) fresh by (simp add: found_files_final_run_outcome searched_lists)
  obtain pre where "trace (run_outcome E ?self) =
      pre @ summary (final (run_outcome E ?self)) (length (fst (read_input_file E ?self)))
              (length (found_files (final (run_outcome E ?self))))"
    using run_outcome_summary [OF ne assms(2) f] n by auto
  then show ?thesis using r by (auto simp: summary_def)
qed

lemma failing_run: "process_files failing_env (EverythingSearcher demo_cfg) = Inr failing_out"
  by code_simp

theorem summary_ends_run_with_found_files_witness:
  "lang demo_cfg \<noteq> None
   \<and> fst (validate_regex failing_env (EverythingSearcher demo_cfg))
   \<and> ''notes.txt'' \<in> set (fst (read_input_file failing_env (EverythingSearcher demo_cfg)))
   \<and> search_single_file failing_env ''notes.txt'' (regex_filter demo_cfg) \<noteq> []
   \<and> process_files failing_env (EverythingSearcher demo_cfg) = Inr failing_out
   \<and> processed_files (final failing_out) = []
   \<and> failed_files (final failing_out) = found_files (final failing_out)
   \<and> drop 21 (trace failing_out)
        = [Log SummaryHeader, Log (TotalProcessed 3), Log (TotalFound 3),
           Log (SuccessProcessed 0), Log (FailedOperations 3),
           Log (ActionsTaken [CopiedFiles 0])]
   \<and> (\<exists>out pre. process_files failing_env (EverythingSearcher demo_cfg) = Inr out
          \<and> trace out =
               pre @ [Log SummaryHeader,
                      Log (TotalProcessed
                             (length (fst (read_input_file failing_env
                                             (EverythingSearcher demo_cfg))))),
                      Log (TotalFound (length (found_files (final out)))),
                      Log (SuccessProcessed (length (processed_files (final out))))]
                   @ (if failed_files (final out) \<noteq> []
                      then [Log (FailedOperations (length (failed_files (final out))))] else [])
                   @ (if actions_taken (final out) \<noteq> []
                      then [Log (ActionsTaken (actions_taken (final out)))] else []))"
proof -
  have l: "lang demo_cfg \<noteq> None" by code_simp
  have v: "fst (validate_regex failing_env (EverythingSearcher demo_cfg))" by code_simp
  have m: "''notes.txt'' \<in> set (fst (read_input_file failing_env (EverythingSearcher demo_cfg)))"
    by code_simp
  have s: "search_single_file failing_env ''notes.txt'' (regex_filter demo_cfg) \<noteq> []"
    by code_simp
  have p: "processed_files (final failing_out) = []" by code_simp
  have f: "failed_files (final failing_out) = found_files (final failing_out)" by code_simp
  have t: "drop 21 (trace failing_out)
        = [Log SummaryHeader, Log (TotalProcessed 3), Log (TotalFound 3),
           Log (SuccessProcessed 0), Log (FailedOperations 3),
           Log (ActionsTaken [CopiedFiles 0])]" by code_simp
  show ?thesis
    using l v m s p f t failing_run summary_ends_run_with_found_files [OF l v m s]
    by blast
qed

theorem no_summary_without_matches:
  "lang demo_nomatch_cfg \<noteq> None
   \<and> fst (validate_regex demo_env (EverythingSearcher demo_nomatch_cfg))
   \<and> fst (read_input_file demo_env (EverythingSearcher demo_nomatch_cfg)) = [''missing.txt'']
   \<and> process_files demo_env (EverythingSearcher demo_nomatch_cfg)
        = Inr (returned (EverythingSearcher demo_nomatch_cfg)
                 [Log (Processing 1), Log Searching, Log (Requested ''missing.txt''),
                  Submit_search ''missing.txt'', Progress ''search'' 1 1, Log NoMatches])"
  by code_simp

subsection \<open>Regex validation\<close>

text \<open>
  A pattern on which the compilation raises something other than \<^verbatim>\<open>re.error\<close> is not
  caught by the validation: the exception leaves \<^verbatim>\<open>process_files\<close>.
\<close>

lemma compile_exception_leaves_process_files:
  "process_files demo_env (EverythingSearcher demo_overflow_cfg) = Inl CompileException"
  by code_simp

text \<open>
  Claim C4, amended. The claim speaks of every run whose regex filter fails to compile;
  a run whose filename list is empty returns at the no-files message, before the
  validation, reports no validation error and never compiles the pattern (the
  counterexample after the theorem). What holds: in every run with a language manager
  and a non-empty filename list in which compiling the (non-empty) regex filter raises
  \<^verbatim>\<open>re.error\<close>, the trace is log messages followed by the one compilation of the
  pattern and the validation error; no search is submitted, no file operation is
  attempted, and the searcher is left as it was.
\<close>

theorem invalid_regex_aborts_before_search:
  assumes "lang self \<noteq> None" and "fst (read_input_file E self) \<noteq> []"
    and "nonempty (regex_filter self) = Some pat" and "re_compile E pat = Re_error"
  shows "\<exists>out logged. process_files E self = Inr out
           \<and> trace out = map Log logged @ [ReCompile pat, Log InvalidRegex]
           \<and> search_units (trace out) = []
           \<and> regex_compiles (trace out) = [pat]
           \<and> final out = self \<and> worker_ops out = []"
proof -
  obtain l where l: "lang self = Some l" using assms(1) by auto
  have v: "validate_regex E self = (False, [ReCompile pat])"
    using assms(3,4) by (simp add: validate_regex_def)
  then have nv: "\<not> fst (validate_regex E self)" by simp
  have ne: "\<not> compile_escapes E self"
    using assms(3,4) by (simp add: compile_escapes_def)
  have r: "process_files E self
             = Inr (returned self (intro_events E self @ [ReCompile pat, Log InvalidRegex]))"
    using process_files_invalid_regex [OF l assms(2) nv ne] v by simp
  have "\<exists>logged. snd (read_input_file E self) = map Log logged"
  proof (cases "snd (read_input_file E self) = []")
    case True
    then show ?thesis by simp
  next
    case False
    then have "snd (read_input_file E self) = map Log [ErrorReadingInput]"
      by (auto simp: read_input_file_def split: option.splits)
    then show ?thesis by blast
  qed
  then obtain lg where lg: "snd (read_input_file E self) = map Log lg" by blast
  have i: "intro_events E self
             = map Log (lg @ [Processing (length (fst (read_input_file E self))), Searching]
                        @ map Requested (fst (read_input_file E self)))"
    by (simp add: intro_events_def lg)
  let ?out = "returned self (intro_events E self @ [ReCompile pat, Log InvalidRegex])"
  have "trace ?out = map Log (lg @ [Processing (length (fst (read_input_file E self))), Searching]
                        @ map Requested (fst (read_input_file E self)))
                     @ [ReCompile pat, Log InvalidRegex]"
    by (simp add: returned_def i)
  moreover have "search_units (trace ?out) = []"
    by (simp add: returned_def search_units_append search_units_intro)
  moreover have "regex_compiles (trace ?out) = [pat]"
    by (simp add: returned_def regex_compiles_append regex_compiles_intro)
  moreover have "final ?out = self" "worker_ops ?out = []"
    by (simp_all add: returned_def)
  ultimately show ?thesis using r by blast
qed

theorem invalid_regex_aborts_before_search_witness:
  "lang (EverythingSearcher demo_badre_cfg) \<noteq> None
   \<and> fst (read_input_file demo_env (EverythingSearcher demo_badre_cfg)) \<noteq> []
   \<and> nonempty (regex_filter (EverythingSearcher demo_badre_cfg)) = Some ''[''
   \<and> re_compile demo_env ''['' = Re_error
   \<and> process_files demo_env (EverythingSearcher demo_badre_cfg)
        = Inr (returned (EverythingSearcher demo_badre_cfg)
                 [Log (Processing 3), Log Searching, Log (Requested ''report.docx''),
                  Log (Requested ''broken''), Log (Requested ''notes.txt''),
                  ReCompile ''['', Log InvalidRegex])
   \<and> (\<exists>out logged. process_files demo_env (EverythingSearcher demo_badre_cfg) = Inr out
          \<and> trace out = map Log logged @ [ReCompile ''['', Log InvalidRegex]
          \<and> search_units (trace out) = []
          \<and> regex_compiles (trace out) = [''['']
          \<and> final out = EverythingSearcher demo_badre_cfg \<and> worker_ops out = [])"
proof -
  have l: "lang (EverythingSearcher demo_badre_cfg) \<noteq> None" by code_simp
  have n: "fst (read_input_file demo_env (EverythingSearcher demo_badre_cfg)) \<noteq> []"
    by code_simp
  have p: "nonempty (regex_filter (EverythingSearcher demo_badre_cfg)) = Some ''[''"
    by code_simp
  have i: "re_compile demo_env ''['' = Re_error" by code_simp
  have r: "process_files demo_env (EverythingSearcher demo_badre_cfg)
        = Inr (returned (EverythingSearcher demo_badre_cfg)
                 [Log (Processing 3), Log Searching, Log (Requested ''report.docx''),
                  Log (Requested ''broken''), Log (Requested ''notes.txt''),
                  ReCompile ''['', Log InvalidRegex])" by code_simp
  show ?thesis
    using l n p i r invalid_regex_aborts_before_search [OF l n p i] by blast
qed

theorem blank_input_skips_regex_validation:
  "regex_filter (EverythingSearcher demo_blank_cfg) = Some ''[''
   \<and> re_compile demo_env ''['' = Re_error
   \<and> process_files demo_env (EverythingSearcher demo_blank_cfg)
        = Inr (returned (EverythingSearcher demo_blank_cfg) [Log NoFiles])
   \<and> regex_compiles [Log NoFiles] = []"
  by code_simp

subsection \<open>Paths with a drive letter\<close>

lemma sep_neq [simp]: "sep \<noteq> colon" "colon \<noteq> sep" "altsep \<noteq> colon" "colon \<noteq> altsep"
  by (simp_all add: sep_def colon_def altsep_def)

lemma win_colon [simp]: "(if c = altsep then sep else c) = colon \<longleftrightarrow> c = colon"
  by auto

lemma splitdrive_letter: "splitdrive unc (d # colon # rest) = ([d, colon], rest)"
  by (simp add: splitdrive_def win_def)

lemma splitdrive_plain:
  assumes "plain_relative p"
  shows "splitdrive unc p = ([], p)"
proof (cases p)
  case Nil
  then show ?thesis by (simp add: splitdrive_def)
next
  case (Cons a q)
  then have a: "\<not> is_sep a" using assms by (simp add: plain_relative_def)
  show ?thesis
  proof (cases q)
    case Nil
    then show ?thesis using Cons by (simp add: splitdrive_def)
  next
    case (Cons b r)
    then have "b \<noteq> colon" using assms \<open>p = a # q\<close> by (simp add: plain_relative_def)
    then show ?thesis
      using Cons \<open>p = a # q\<close> a
      by (auto simp: splitdrive_def win_def is_sep_def)
  qed
qed

lemma path_join_drive_root:
  assumes "plain_relative p"
  shows "path_join unc (a # colon # rp) p =
           [a, colon] @ (if rp \<noteq> [] \<and> \<not> is_sep (last rp) then rp @ [sep] else rp) @ p"
proof -
  have h: "p = [] \<or> \<not> is_sep (hd p)" using assms by (simp add: plain_relative_def)
  show ?thesis
    using h by (auto simp: path_join_def splitdrive_letter splitdrive_plain [OF assms])
qed

lemma path_join_under_root:
  assumes "plain_relative p" "rp \<noteq> []" "\<not> is_sep (last rp)"
  shows "path_join unc (a # colon # rp) p = (a # colon # rp) @ sep # p"
  using assms by (simp add: path_join_drive_root)

lemma lstrip_sep_rooted:
  assumes "plain_relative rel"
  shows "lstrip_sep (sep # rel) = rel"
proof (cases rel)
  case Nil
  then show ?thesis by (simp add: lstrip_sep_def)
next
  case (Cons c cs)
  then have "c \<noteq> sep" using assms by (simp add: plain_relative_def is_sep_def)
  then show ?thesis using Cons by (simp add: lstrip_sep_def)
qed

lemma structured_dest_drive_letter:
  assumes "plain_relative rel" "rp \<noteq> []" "\<not> is_sep (last rp)"
  shows "structured_dest E (a # colon # rp) (d # colon # sep # rel) = (a # colon # rp) @ sep # rel"
  using assms
  by (simp add: structured_dest_def splitdrive_letter lstrip_sep_rooted path_join_under_root)

lemma flat_dest_drive_letter:
  assumes "plain_relative filename" "rp \<noteq> []" "\<not> is_sep (last rp)"
  shows "flat_dest E (a # colon # rp) filename = (a # colon # rp) @ sep # filename"
  using assms by (simp add: flat_dest_def path_join_under_root)

lemma transfer_ops_structured:
  assumes "match_folder_structure self"
  shows "transfer_ops E self act root (filename, source_path) =
           [Makedirs (dirname (unc_drive E) (structured_dest E root source_path)),
            act source_path (structured_dest E root source_path)]"
  using assms by (simp add: transfer_ops_def structured_dest_def Let_def)

lemma transfer_ops_flat:
  assumes "\<not> match_folder_structure self"
  shows "transfer_ops E self act root (filename, source_path) =
           [act source_path (flat_dest E root filename)]"
  using assms by (simp add: transfer_ops_def flat_dest_def Let_def)

lemma run_ops_no_raise: "run_ops (\<lambda>j. False) k xs = (True, xs)"
  by (induction xs arbitrary: k) simp_all

lemma process_file_no_raise:
  "process_file (\<lambda>j. False) E self file_info = (True, process_file_ops E self file_info, [])"
  by (simp add: process_file_def run_ops_no_raise)

subsection \<open>Destinations of copy and move\<close>

text \<open>
  Claim C7. With folder-structure preservation enabled (and delete mode off), the copy
  destination and the move destination of a found file are the destination root joined
  (\<^verbatim>\<open>os.path.join\<close>) with the source path stripped of its drive and of leading
  backslashes; before each transfer the directory of that destination is created
  (\<^verbatim>\<open>os.makedirs\<close> of its \<^verbatim>\<open>dirname\<close>), and when no operation raises all of them are
  performed and \<^verbatim>\<open>process_file\<close> returns \<^verbatim>\<open>True\<close>. For a source with a drive letter
  and a root on a drive that does not end in a separator, the destination is the root, a
  backslash, and the source path without drive and leading backslash: the source
  \<^verbatim>\<open>C:\a\b\file.txt\<close> under the root \<^verbatim>\<open>D:\out\<close> goes to \<^verbatim>\<open>D:\out\a\b\file.txt\<close>.
\<close>


theorem structured_copy_move_destination:
  assumes "\<not> delete_mode self" and "match_folder_structure self"
  shows "process_file_ops E self (filename, source_path) =
           (case nonempty (copy_path self) of
              None \<Rightarrow> []
            | Some root \<Rightarrow>
                [Makedirs (dirname (unc_drive E) (structured_dest E root source_path)),
                 Copy2 source_path (structured_dest E root source_path)])
           @ (case nonempty (move_path self) of
                None \<Rightarrow> []
              | Some root \<Rightarrow>
                  [Makedirs (dirname (unc_drive E) (structured_dest E root source_path)),
                   Move source_path (structured_dest E root source_path)])
         \<and> process_file (\<lambda>j. False) E self (filename, source_path)
             = (True, process_file_ops E self (filename, source_path), [])
         \<and> (plain_relative rel \<and> rp \<noteq> [] \<and> \<not> is_sep (last rp) \<longrightarrow>
              structured_dest E (a # colon # rp) (d # colon # sep # rel)
                = (a # colon # rp) @ sep # rel)"
proof -
  have "process_file_ops E self (filename, source_path) =
           (case nonempty (copy_path self) of
              None \<Rightarrow> []
            | Some root \<Rightarrow>
                [Makedirs (dirname (unc_drive E) (structured_dest E root source_path)),
                 Copy2 source_path (structured_dest E root source_path)])
           @ (case nonempty (move_path self) of
                None \<Rightarrow> []
              | Some root \<Rightarrow>
                  [Makedirs (dirname (unc_drive E) (structured_dest E root source_path)),
                   Move source_path (structured_dest E root source_path)])"
    using assms(1)
    by (simp add: process_file_ops_def transfer_ops_structured [OF assms(2)]
          split: option.splits)
  then show ?thesis
    using process_file_no_raise structured_dest_drive_letter by blast
qed

theorem structured_copy_move_destination_witness:
  "\<not> delete_mode (EverythingSearcher demo_struct_cfg)
   \<and> match_folder_structure (EverythingSearcher demo_struct_cfg)
   \<and> plain_relative (win ''a/b/file.txt'')
   \<and> win ''/out'' \<noteq> [] \<and> \<not> is_sep (last (win ''/out''))
   \<and> copy_path (EverythingSearcher demo_struct_cfg) = Some (win ''D:/out'')
   \<and> structured_dest demo_env (CHR ''D'' # colon # win ''/out'')
        (CHR ''C'' # colon # sep # win ''a/b/file.txt'') = win ''D:/out/a/b/file.txt''
   \<and> process_file_ops demo_env (EverythingSearcher demo_struct_cfg)
        (''file.txt'', win ''C:/a/b/file.txt'')
        = [Makedirs (win ''D:/out/a/b''),
           Copy2 (win ''C:/a/b/file.txt'') (win ''D:/out/a/b/file.txt''),
           Makedirs (win ''E:/moved/a/b''),
           Move (win ''C:/a/b/file.txt'') (win ''E:/moved/a/b/file.txt'')]"
proof -
  have d: "\<not> delete_mode (EverythingSearcher demo_struct_cfg)" by code_simp
  have m: "match_folder_structure (EverythingSearcher demo_struct_cfg)" by code_simp
  have p: "plain_relative (win ''a/b/file.txt'')" by code_simp
  have r: "win ''/out'' \<noteq> []" "\<not> is_sep (last (win ''/out''))" by code_simp+
  have c: "copy_path (EverythingSearcher demo_struct_cfg) = Some (win ''D:/out'')" by code_simp
  have e: "(CHR ''D'' # colon # win ''/out'') @ sep # win ''a/b/file.txt''
             = win ''D:/out/a/b/file.txt''" by code_simp
  note t = structured_copy_move_destination [OF d m, of demo_env "''file.txt''"
      "win ''C:/a/b/file.txt''" "win ''a/b/file.txt''" "win ''/out''" "CHR ''D''" "CHR ''C''"]
  have s: "structured_dest demo_env (CHR ''D'' # colon # win ''/out'')
        (CHR ''C'' # colon # sep # win ''a/b/file.txt'') = win ''D:/out/a/b/file.txt''"
    using t p r e by simp
  have rhs: "(case nonempty (copy_path (EverythingSearcher demo_struct_cfg)) of
              None \<Rightarrow> []
            | Some root \<Rightarrow>
                [Makedirs (dirname (unc_drive demo_env)
                   (structured_dest demo_env root (win ''C:/a/b/file.txt''))),
                 Copy2 (win ''C:/a/b/file.txt'')
                   (structured_dest demo_env root (win ''C:/a/b/file.txt''))])
           @ (case nonempty (move_path (EverythingSearcher demo_struct_cfg)) of
                None \<Rightarrow> []
              | Some root \<Rightarrow>
                  [Makedirs (dirname (unc_drive demo_env)
                     (structured_dest demo_env root (win ''C:/a/b/file.txt''))),
                   Move (win ''C:/a/b/file.txt'')
                     (structured_dest demo_env root (win ''C:/a/b/file.txt''))])
        = [Makedirs (win ''D:/out/a/b''),
           Copy2 (win ''C:/a/b/file.txt'') (win ''D:/out/a/b/file.txt''),
           Makedirs (win ''E:/moved/a/b''),
           Move (win ''C:/a/b/file.txt'') (win ''E:/moved/a/b/file.txt'')]"
    by code_simp
  have o: "process_file_ops demo_env (EverythingSearcher demo_struct_cfg)
        (''file.txt'', win ''C:/a/b/file.txt'')
        = [Makedirs (win ''D:/out/a/b''),
           Copy2 (win ''C:/a/b/file.txt'') (win ''D:/out/a/b/file.txt''),
           Makedirs (win ''E:/moved/a/b''),
           Move (win ''C:/a/b/file.txt'') (win ''E:/moved/a/b/file.txt'')]"
    using t rhs by simp
  show ?thesis using d m p r c s o by blast
qed

text \<open>
  Claim C8. With folder-structure preservation disabled (and delete mode off), the copy
  destination and the move destination of a found pair are the destination root joined
  with the requested filename, the first component of the pair; the found path is only
  the source of the transfer, so its basename plays no part. For a plain filename and a
  root on a drive that does not end in a separator, the destination is the root, a
  backslash, and the requested filename.
\<close>


theorem flat_destination_uses_requested_name:
  assumes "\<not> delete_mode self" and "\<not> match_folder_structure self"
  shows "process_file_ops E self (filename, source_path) =
           (case nonempty (copy_path self) of
              None \<Rightarrow> []
            | Some root \<Rightarrow> [Copy2 source_path (flat_dest E root filename)])
           @ (case nonempty (move_path self) of
                None \<Rightarrow> []
              | Some root \<Rightarrow> [Move source_path (flat_dest E root filename)])
         \<and> process_file (\<lambda>j. False) E self (filename, source_path)
             = (True, process_file_ops E self (filename, source_path), [])
         \<and> (plain_relative filename \<and> rp \<noteq> [] \<and> \<not> is_sep (last rp) \<longrightarrow>
              flat_dest E (a # colon # rp) filename = (a # colon # rp) @ sep # filename)"
proof -
  have "process_file_ops E self (filename, source_path) =
           (case nonempty (copy_path self) of
              None \<Rightarrow> []
            | Some root \<Rightarrow> [Copy2 source_path (flat_dest E root filename)])
           @ (case nonempty (move_path self) of
                None \<Rightarrow> []
              | Some root \<Rightarrow> [Move source_path (flat_dest E root filename)])"
    using assms(1)
    by (simp add: process_file_ops_def transfer_ops_flat [OF assms(2)] split: option.splits)
  then show ?thesis
    using process_file_no_raise flat_dest_drive_letter by blast
qed

theorem flat_destination_uses_requested_name_witness:
  "\<not> delete_mode (EverythingSearcher demo_flat_cfg)
   \<and> \<not> match_folder_structure (EverythingSearcher demo_flat_cfg)
   \<and> plain_relative ''report''
   \<and> win ''/out'' \<noteq> [] \<and> \<not> is_sep (last (win ''/out''))
   \<and> flat_dest demo_env (CHR ''D'' # colon # win ''/out'') ''report'' = win ''D:/out/report''
   \<and> process_file_ops demo_env (EverythingSearcher demo_flat_cfg)
        (''report'', win ''C:/docs/report_final.docx'')
        = [Copy2 (win ''C:/docs/report_final.docx'') (win ''D:/out/report''),
           Move (win ''C:/docs/report_final.docx'') (win ''E:/moved/report'')]
   \<and> process_file_ops demo_env (EverythingSearcher demo_flat_cfg)
        (''file.txt'', win ''C:/a/b/file.txt'')
        = [Copy2 (win ''C:/a/b/file.txt'') (win ''D:/out/file.txt''),
           Move (win ''C:/a/b/file.txt'') (win ''E:/moved/file.txt'')]"
proof -
  have d: "\<not> delete_mode (EverythingSearcher demo_flat_cfg)" by code_simp
  have m: "\<not> match_folder_structure (EverythingSearcher demo_flat_cfg)" by code_simp
  have p: "plain_relative ''report''" by code_simp
  have r: "win ''/out'' \<noteq> []" "\<not> is_sep (last (win ''/out''))" by code_simp+
  have e: "(CHR ''D'' # colon # win ''/out'') @ sep # ''report'' = win ''D:/out/report''"
    by code_simp
  note t = flat_destination_uses_requested_name [OF d m, of demo_env "''report''"
      "win ''C:/docs/report_final.docx''" "win ''/out''" "CHR ''D''"]
  have s: "flat_dest demo_env (CHR ''D'' # colon # win ''/out'') ''report'' = win ''D:/out/report''"
    using t p r e by simp
  have rhs: "(case nonempty (copy_path (EverythingSearcher demo_flat_cfg)) of
              None \<Rightarrow> []
            | Some root \<Rightarrow>
                [Copy2 (win ''C:/docs/report_final.docx'') (flat_dest demo_env root ''report'')])
           @ (case nonempty (move_path (EverythingSearcher demo_flat_cfg)) of
                None \<Rightarrow> []
              | Some root \<Rightarrow>
                  [Move (win ''C:/docs/report_final.docx'') (flat_dest demo_env root ''report'')])
        = [Copy2 (win ''C:/docs/report_final.docx'') (win ''D:/out/report''),
           Move (win ''C:/docs/report_final.docx'') (win ''E:/moved/report'')]"
    by code_simp
  have o: "process_file_ops demo_env (EverythingSearcher demo_flat_cfg)
        (''report'', win ''C:/docs/report_final.docx'')
        = [Copy2 (win ''C:/docs/report_final.docx'') (win ''D:/out/report''),
           Move (win ''C:/docs/report_final.docx'') (win ''E:/moved/report'')]"
    using t rhs by simp
  have o2: "process_file_ops demo_env (EverythingSearcher demo_flat_cfg)
        (''file.txt'', win ''C:/a/b/file.txt'')
        = [Copy2 (win ''C:/a/b/file.txt'') (win ''D:/out/file.txt''),
           Move (win ''C:/a/b/file.txt'') (win ''E:/moved/file.txt'')]"
    by code_simp
  show ?thesis using d m p r s o o2 by blast
qed

end
